theory Spec2Isabelle
  imports Complex_Main "HOL-Library.Sublist"
begin

section \<open>The rebuild progress client of the QNA-RAG frontend\<close>

text \<open>
  A shallow embedding of \<^verbatim>\<open>rebuildVectorStore\<close> and
  \<^verbatim>\<open>rebuildVectorStoreWithProgress\<close> (class \<^verbatim>\<open>ApiClient\<close>,
  \<^verbatim>\<open>frontend/src/lib/api.ts\<close>) and of the handler \<^verbatim>\<open>rebuildVectorStore\<close> of
  \<^verbatim>\<open>frontend/src/pages/SettingsPage.tsx\<close>.

  Strings are byte strings (the UTF-8 encoding of the JavaScript string); every
  separator and marker the code looks for is ASCII, so taking and dropping bytes agrees
  with the code's taking and dropping of UTF-16 units at those places.
\<close>

subsection \<open>JavaScript values\<close>

text \<open>
  What \<^verbatim>\<open>JSON.parse\<close> returns, and what a callback can make of it by assigning to
  properties. Numbers are rationals (every finite double is one). A \<open>JObj\<close> lists the
  own properties of the object, each key once, with data values. A \<open>JArr\<close> has its
  elements and the other own properties the array has been given: none as parsed.
  Accessor properties, functions as values and changed prototypes are outside the
  model.
\<close>

datatype json =
    JNull
  | JBool bool
  | JNum rat
  | JStr string
  | JArr "json list" "(string \<times> json) list"
  | JObj "(string \<times> json) list"

text \<open>
  Reading a property of a value other than \<^verbatim>\<open>null\<close>, for the property names the
  client uses (\<^verbatim>\<open>status\<close>, \<^verbatim>\<open>error\<close>, ...): \<open>None\<close> is \<^verbatim>\<open>undefined\<close>.
  Only objects and arrays carry such properties. Reading a property of \<^verbatim>\<open>null\<close>
  throws; the callers below make that case explicit.
\<close>

fun field :: "string \<Rightarrow> json \<Rightarrow> json option" where
  "field k (JObj kvs) = map_of kvs k"
| "field k (JArr vs kvs) = map_of kvs k"
| "field k _ = None"

text \<open>
  The assignment \<^verbatim>\<open>d[k] = v\<close> in strict mode, \<open>None\<close> where it throws (on
  \<^verbatim>\<open>null\<close> and on primitive values): an existing property keeps its place, a new
  one goes last.
\<close>

fun put :: "string \<Rightarrow> json \<Rightarrow> (string \<times> json) list \<Rightarrow> (string \<times> json) list" where
  "put k v [] = [(k, v)]"
| "put k v ((k', v') # kvs) = (if k' = k then (k, v) # kvs else (k', v') # put k v kvs)"

fun assign :: "string \<Rightarrow> json \<Rightarrow> json \<Rightarrow> json option" where
  "assign k v (JObj kvs) = Some (JObj (put k v kvs))"
| "assign k v (JArr vs kvs) = Some (JArr vs (put k v kvs))"
| "assign k v _ = None"

text \<open>Truthiness, as \<^verbatim>\<open>if (v)\<close> and \<^verbatim>\<open>v || w\<close> test it.\<close>

fun truthy :: "json \<Rightarrow> bool" where
  "truthy JNull = False"
| "truthy (JBool b) = b"
| "truthy (JNum n) = (n \<noteq> 0)"
| "truthy (JStr s) = (s \<noteq> [])"
| "truthy (JArr _ _) = True"
| "truthy (JObj _) = True"

text \<open>Thrown values: \<^verbatim>\<open>Error\<close> objects, with their \<^verbatim>\<open>message\<close>.\<close>

datatype error = Error (message: string)

subsection \<open>Strings\<close>

definition startsWith :: "string \<Rightarrow> string \<Rightarrow> bool" where
  "startsWith line p = (take (length p) line = p)"

definition slice :: "nat \<Rightarrow> string \<Rightarrow> string" where
  "slice n line = drop n line"

text \<open>\<^verbatim>\<open>s.split(sep)\<close> for a separator of one character: never the empty list.\<close>

fun split :: "char \<Rightarrow> string \<Rightarrow> string list" where
  "split sep [] = [[]]"
| "split sep (c # cs) =
     (if c = sep then [] # split sep cs
      else (case split sep cs of
              l # ls \<Rightarrow> (c # l) # ls
            | [] \<Rightarrow> [[c]]))"

text \<open>The inverse direction, \<^verbatim>\<open>lines.join(sep)\<close>, used to write streams down.\<close>

fun join :: "char \<Rightarrow> string list \<Rightarrow> string" where
  "join sep [] = []"
| "join sep [l] = l"
| "join sep (l # l' # ls) = l @ sep # join sep (l' # ls)"

definition newline :: char where
  "newline = CHR 0x0A"

subsection \<open>Query strings\<close>

record filters =
  user_filter :: "string option"
  document_filter :: "string option"
  batch_size :: "int option"

text \<open>
  \<^verbatim>\<open>Number.prototype.toString\<close> on an integer-valued number (below \<open>10^21\<close> in
  magnitude, where JavaScript prints plain decimal digits).
\<close>

definition digit_char :: "nat \<Rightarrow> char" where
  "digit_char d = char_of (48 + d)"

fun digits :: "nat \<Rightarrow> string" where
  "digits n = (if n < 10 then [digit_char n] else digits (n div 10) @ [digit_char (n mod 10)])"

declare digits.simps [simp del]

definition number_toString :: "int \<Rightarrow> string" where
  "number_toString i = (if i < 0 then CHR ''-'' # digits (nat (- i)) else digits (nat i))"

text \<open>
  \<^verbatim>\<open>URLSearchParams\<close>: a list of pairs; \<^verbatim>\<open>append\<close> adds at the end and
  \<^verbatim>\<open>toString\<close> is the \<^verbatim>\<open>application/x-www-form-urlencoded\<close> serialiser.
\<close>

type_synonym url_search_params = "(string \<times> string) list"

definition append_param :: "string \<Rightarrow> string \<Rightarrow> url_search_params \<Rightarrow> url_search_params" where
  "append_param k v params = params @ [(k, v)]"

definition hex_char :: "nat \<Rightarrow> char" where
  "hex_char d = (if d < 10 then char_of (48 + d) else char_of (55 + d))"

definition form_safe :: "char \<Rightarrow> bool" where
  "form_safe c =
     (let n = (of_char c :: nat)
      in (48 \<le> n \<and> n \<le> 57) \<or> (65 \<le> n \<and> n \<le> 90) \<or> (97 \<le> n \<and> n \<le> 122)
         \<or> c = CHR ''*'' \<or> c = CHR ''-'' \<or> c = CHR ''.'' \<or> c = CHR ''_'')"

definition form_encode_char :: "char \<Rightarrow> string" where
  "form_encode_char c =
     (if c = CHR '' '' then ''+''
      else if form_safe c then [c]
      else [CHR ''%'', hex_char ((of_char c :: nat) div 16), hex_char ((of_char c :: nat) mod 16)])"

definition form_encode :: "string \<Rightarrow> string" where
  "form_encode s = concat (map form_encode_char s)"

fun params_toString :: "url_search_params \<Rightarrow> string" where
  "params_toString [] = []"
| "params_toString [(k, v)] = form_encode k @ ''='' @ form_encode v"
| "params_toString ((k, v) # p # ps) =
     form_encode k @ ''='' @ form_encode v @ ''&'' @ params_toString (p # ps)"

text \<open>
  The first four statements of both rebuild methods: a parameter is appended when the
  filter is given and truthy (a non-empty string, a non-zero number).
\<close>

definition rebuild_params :: "filters option \<Rightarrow> url_search_params" where
  "rebuild_params fs =
     (let params = [];
          params = (case Option.bind fs user_filter of
                      Some v \<Rightarrow> if v \<noteq> [] then append_param ''user_filter'' v params else params
                    | None \<Rightarrow> params);
          params = (case Option.bind fs document_filter of
                      Some v \<Rightarrow> if v \<noteq> [] then append_param ''document_filter'' v params else params
                    | None \<Rightarrow> params);
          params = (case Option.bind fs batch_size of
                      Some n \<Rightarrow> if n \<noteq> 0 then append_param ''batch_size'' (number_toString n) params
                                else params
                    | None \<Rightarrow> params)
      in params)"

definition query_suffix :: "url_search_params \<Rightarrow> string" where
  "query_suffix params =
     (if params_toString params \<noteq> [] then ''?'' @ params_toString params else [])"

text \<open>
  \<^verbatim>\<open>rebuildVectorStore\<close> hands its URL to the \<^verbatim>\<open>post\<close> method of the axios
  instance, which is a parameter here.
\<close>

definition rebuildVectorStore :: "(string \<Rightarrow> 'r) \<Rightarrow> filters option \<Rightarrow> 'r" where
  "rebuildVectorStore post fs =
     (let params = rebuild_params fs;
          url = ''/rag/admin/vector/rebuild'' @ query_suffix params
      in post url)"

subsection \<open>The world of the streaming client\<close>

text \<open>
  \<^verbatim>\<open>reader.read()\<close> resolves to a chunk, to \<^verbatim>\<open>done\<close>, or rejects. A reader is the
  sequence of these results, which may go on for ever. A chunk is the text that
  \<^verbatim>\<open>decoder.decode(value, {stream: true})\<close> returns for it.
\<close>

datatype read_result = Value string | Done | Rejected error

type_synonym reader = "nat \<Rightarrow> read_result"

record request =
  url :: string
  http_method :: string
  headers :: "(string \<times> string) list"

record response =
  status_code :: nat
  statusText :: string
  body :: "reader option"

text \<open>\<^verbatim>\<open>response.ok\<close>: the status is in the range 200-299.\<close>

definition ok :: "response \<Rightarrow> bool" where
  "ok r = (200 \<le> status_code r \<and> status_code r \<le> 299)"

record outcome =
  success :: bool
  data :: json

text \<open>
  The caller's callback works on the caller's state \<open>'s\<close> and on the value it is
  given, which is the parsed object itself: it returns or throws, and has changed the
  state either way. \<open>Returns s d'\<close> says in which state \<open>s\<close> it returned and as what
  \<open>d'\<close> it left the value.
\<close>

datatype 's callback_result = Returns 's json | Throws 's

type_synonym 's callback = "json \<Rightarrow> 's \<Rightarrow> 's callback_result"

text \<open>
  Everything the client touches: the requests issued, the lines given to
  \<^verbatim>\<open>console.warn\<close>, the arguments of the callback's invocations in order, the number
  of \<^verbatim>\<open>reader.read()\<close> calls on the current reader, whether the reader is locked,
  and the caller's state.
\<close>

record 's world =
  requests :: "request list"
  warnings :: "string list"
  calls :: "json list"
  reads :: nat
  locked :: bool
  caller :: 's

definition console_warn :: "string \<Rightarrow> 's world \<Rightarrow> 's world" where
  "console_warn line w = w\<lparr>warnings := warnings w @ [line]\<rparr>"

text \<open>
  What a value is after a callback has worked on it: an object is still an object and
  an array an array, with the properties (and elements) the callback left; \<^verbatim>\<open>null\<close>
  and primitive values cannot be changed.
\<close>

fun left_by :: "json \<Rightarrow> json \<Rightarrow> json" where
  "left_by (JObj kvs) (JObj kvs') = JObj kvs'"
| "left_by (JArr vs kvs) (JArr vs' kvs') = JArr vs' kvs'"
| "left_by d d' = d"

text \<open>
  \<^verbatim>\<open>if (onProgress) { onProgress(data); }\<close>: \<^verbatim>\<open>data\<close> afterwards, or that the
  callback threw.
\<close>

datatype 's invoked = Returned json "'s world" | Threw "'s world"

fun invoke :: "'s callback option \<Rightarrow> json \<Rightarrow> 's world \<Rightarrow> 's invoked" where
  "invoke None d w = Returned d w"
| "invoke (Some cb) d w =
     (case cb d (caller w) of
        Returns s d' \<Rightarrow> Returned (left_by d d') (w\<lparr>calls := calls w @ [d], caller := s\<rparr>)
      | Throws s \<Rightarrow> Threw (w\<lparr>calls := calls w @ [d], caller := s\<rparr>))"

subsection \<open>The read loop\<close>

datatype 's line_result = Continue "'s world" | Return outcome "'s world"

text \<open>
  The body of \<^verbatim>\<open>for (const line of lines)\<close>. \<^verbatim>\<open>JSON.parse\<close> is the parameter
  \<open>parse\<close>, \<open>None\<close> where it throws. The status is read from the value as the
  callback left it, and that value is returned. The \<^verbatim>\<open>catch\<close> clause takes the
  parse error, whatever the callback throws, and the \<^verbatim>\<open>TypeError\<close> of
  \<^verbatim>\<open>data.status\<close> on \<^verbatim>\<open>null\<close>.
\<close>

definition process_line ::
  "(string \<Rightarrow> json option) \<Rightarrow> 's callback option \<Rightarrow> string \<Rightarrow> 's world \<Rightarrow> 's line_result" where
  "process_line parse onProgress line w =
     (if startsWith line ''data: '' then
        (case parse (slice 6 line) of
           None \<Rightarrow> Continue (console_warn line w)
         | Some d \<Rightarrow>
             (case invoke onProgress d w of
                Threw w' \<Rightarrow> Continue (console_warn line w')
              | Returned d' w' \<Rightarrow>
                  (case d' of
                     JNull \<Rightarrow> Continue (console_warn line w')
                   | _ \<Rightarrow>
                       if field ''status'' d' = Some (JStr ''completed'')
                          \<or> field ''status'' d' = Some (JStr ''failed'')
                       then Return \<lparr>success = (field ''status'' d' = Some (JStr ''completed'')),
                                    data = d'\<rparr> w'
                       else Continue w')))
      else Continue w)"

fun process_lines ::
  "(string \<Rightarrow> json option) \<Rightarrow> 's callback option \<Rightarrow> string list \<Rightarrow> 's world \<Rightarrow> 's line_result" where
  "process_lines parse onProgress [] w = Continue w"
| "process_lines parse onProgress (line # lines) w =
     (case process_line parse onProgress line w of
        Return out w' \<Rightarrow> Return out w'
      | Continue w' \<Rightarrow> process_lines parse onProgress lines w')"

text \<open>
  \<^verbatim>\<open>while (true)\<close>: \<open>Inr None\<close> is the \<^verbatim>\<open>break\<close> on \<^verbatim>\<open>done\<close>,
  \<open>Inr (Some out)\<close> the \<^verbatim>\<open>return\<close> from inside the loop, \<open>Inl e\<close> a rejected read.
  A run that reads for ever is \<open>None\<close>.
\<close>

partial_function (option) read_loop ::
  "(string \<Rightarrow> json option) \<Rightarrow> 's callback option \<Rightarrow> reader \<Rightarrow> 's world
     \<Rightarrow> ((error + outcome option) \<times> 's world) option" where
  "read_loop parse onProgress rd w =
     (case rd (reads w) of
        Done \<Rightarrow> Some (Inr None, w\<lparr>reads := Suc (reads w)\<rparr>)
      | Rejected e \<Rightarrow> Some (Inl e, w\<lparr>reads := Suc (reads w)\<rparr>)
      | Value chunk \<Rightarrow>
          (case process_lines parse onProgress (split newline chunk) (w\<lparr>reads := Suc (reads w)\<rparr>) of
             Return out w' \<Rightarrow> Some (Inr (Some out), w')
           | Continue w' \<Rightarrow> read_loop parse onProgress rd w'))"

declare read_loop.simps [code]

subsection \<open>\<^verbatim>\<open>rebuildVectorStoreWithProgress\<close>\<close>

text \<open>
  The answer of the network to a request is the parameter \<open>net\<close> (\<open>Inl\<close> where
  \<^verbatim>\<open>fetch\<close> rejects); \<open>baseURL\<close> is \<^verbatim>\<open>this.client.defaults.baseURL\<close> and \<open>token\<close>
  is \<^verbatim>\<open>localStorage.getItem('access_token')\<close>, \<open>None\<close> for \<^verbatim>\<open>null\<close>.
\<close>

definition bearer :: "string option \<Rightarrow> string" where
  "bearer token = ''Bearer '' @ (case token of None \<Rightarrow> ''null'' | Some t \<Rightarrow> t)"

definition fetch :: "(request \<Rightarrow> error + response) \<Rightarrow> request \<Rightarrow> 's world
    \<Rightarrow> (error + response) \<times> 's world" where
  "fetch net req w = (net req, w\<lparr>requests := requests w @ [req]\<rparr>)"

definition fallback_outcome :: outcome where
  "fallback_outcome = \<lparr>success = True, data = JObj [(''status'', JStr ''completed'')]\<rparr>"

definition stream_request :: "string \<Rightarrow> string option \<Rightarrow> filters option \<Rightarrow> request" where
  "stream_request baseURL token fs =
     (let params = rebuild_params fs;
          url = ''/rag/admin/vector/rebuild/stream'' @ query_suffix params
      in \<lparr>url = baseURL @ url, http_method = ''POST'',
          headers = [(''Authorization'', bearer token),
                     (''Accept'', ''text/event-stream''),
                     (''Cache-Control'', ''no-cache'')]\<rparr>)"

definition rebuildVectorStoreWithProgress ::
  "(string \<Rightarrow> json option) \<Rightarrow> (request \<Rightarrow> error + response) \<Rightarrow> string \<Rightarrow> string option
     \<Rightarrow> filters option \<Rightarrow> 's callback option \<Rightarrow> 's world
     \<Rightarrow> ((error + outcome) \<times> 's world) option" where
  "rebuildVectorStoreWithProgress parse net baseURL token fs onProgress w =
     (case fetch net (stream_request baseURL token fs) w of
        (Inl e, w1) \<Rightarrow> Some (Inl e, w1)
      | (Inr resp, w1) \<Rightarrow>
          if \<not> ok resp then Some (Inl (Error (''Rebuild failed: '' @ statusText resp)), w1)
          else (case body resp of
                  None \<Rightarrow> Some (Inl (Error ''No response body''), w1)
                | Some rd \<Rightarrow>
                    (case read_loop parse onProgress rd (w1\<lparr>reads := 0, locked := True\<rparr>) of
                       None \<Rightarrow> None
                     | Some (r, w2) \<Rightarrow>
                         (let w3 = w2\<lparr>locked := False\<rparr>
                          in case r of
                               Inl e \<Rightarrow> Some (Inl e, w3)
                             | Inr (Some out) \<Rightarrow> Some (Inr out, w3)
                             | Inr None \<Rightarrow> Some (Inr fallback_outcome, w3)))))"

subsection \<open>The settings page\<close>

text \<open>
  \<^verbatim>\<open>String(v)\<close>, which \<^verbatim>\<open>new Error(v)\<close> applies to its argument; \<open>None\<close> where it
  throws a \<^verbatim>\<open>TypeError\<close>. Printing a number is left to the parameter \<open>num_str\<close>.
  An object or array with an own property \<^verbatim>\<open>toString\<close> has no callable one (the
  values are data) and \<^verbatim>\<open>valueOf\<close> gives no primitive value, so the conversion
  throws. Otherwise an object prints as \<^verbatim>\<open>[object Object]\<close>; an array prints its
  elements separated by commas, \<^verbatim>\<open>null\<close> elements as nothing, unless an own
  property hides \<^verbatim>\<open>join\<close>, and then as \<^verbatim>\<open>[object Array]\<close>.
\<close>

fun js_ToString :: "(rat \<Rightarrow> string) \<Rightarrow> json \<Rightarrow> string option" where
  "js_ToString num_str JNull = Some ''null''"
| "js_ToString num_str (JBool b) = Some (if b then ''true'' else ''false'')"
| "js_ToString num_str (JNum n) = Some (num_str n)"
| "js_ToString num_str (JStr s) = Some s"
| "js_ToString num_str (JArr vs kvs) =
     (if map_of kvs ''toString'' \<noteq> None then None
      else if map_of kvs ''join'' \<noteq> None then Some ''[object Array]''
      else map_option (join (CHR '',''))
             (those (map (\<lambda>v. if v = JNull then Some [] else js_ToString num_str v) vs)))"
| "js_ToString num_str (JObj kvs) =
     (if map_of kvs ''toString'' \<noteq> None then None else Some ''[object Object]'')"

record toast =
  title :: string
  description :: string
  variant :: "string option"

text \<open>
  The four arguments \<^verbatim>\<open>setRebuildProgress\<close> is called with: the literal that starts a
  run, the updater the progress callback builds from an event, and the updaters of
  the success and failure paths.
\<close>

datatype progress_update = Starting | FromEvent json | Completed | Failed

text \<open>What the handler does to the page, in order.\<close>

datatype ui_action =
    SetIsLoading bool
  | SetRebuildProgress progress_update
  | SetBackupStats json
  | ShowToast toast

definition page_onProgress :: "ui_action list callback" where
  "page_onProgress d acts = Returns (acts @ [SetRebuildProgress (FromEvent d)]) d"

text \<open>
  \<^verbatim>\<open>fetchBackupStats\<close>; the parameter \<open>stats\<close> is what
  \<^verbatim>\<open>apiClient.getBackupStats()\<close> resolves to (its \<^verbatim>\<open>data\<close>) or rejects with.
\<close>

definition fetchBackupStats :: "error + json \<Rightarrow> ui_action list \<Rightarrow> ui_action list" where
  "fetchBackupStats stats acts =
     (case stats of
        Inr d \<Rightarrow> acts @ [SetBackupStats d]
      | Inl e \<Rightarrow> acts @ [ShowToast \<lparr>title = ''Error'',
                                      description = ''Failed to fetch backup statistics'',
                                      variant = Some ''destructive''\<rparr>])"

text \<open>
  \<^verbatim>\<open>new Error(result.data?.error || 'Rebuild failed')\<close>: the value that the
  \<^verbatim>\<open>throw\<close> statement throws, or the \<^verbatim>\<open>TypeError\<close> of the conversion, whose
  message is the engine's and is the parameter \<open>type_error_text\<close>.
\<close>

definition failure_error :: "(rat \<Rightarrow> string) \<Rightarrow> string \<Rightarrow> json \<Rightarrow> error" where
  "failure_error num_str type_error_text d =
     (case field ''error'' d of
        Some v \<Rightarrow>
          if truthy v
          then (case js_ToString num_str v of
                  Some text \<Rightarrow> Error text
                | None \<Rightarrow> Error type_error_text)
          else Error ''Rebuild failed''
      | None \<Rightarrow> Error ''Rebuild failed'')"

definition failure_toast :: "error \<Rightarrow> toast" where
  "failure_toast e =
     \<lparr>title = ''Error'',
      description = (if message e \<noteq> [] then message e else ''Failed to rebuild vector store''),
      variant = Some ''destructive''\<rparr>"

definition success_toast :: toast where
  "success_toast =
     \<lparr>title = ''Rebuild Completed'',
      description = ''Vector store rebuild completed successfully!'',
      variant = None\<rparr>"

text \<open>
  The handler \<^verbatim>\<open>rebuildVectorStore\<close> of the settings page. \<open>thrown\<close> is what reaches
  its \<^verbatim>\<open>catch\<close> clause.
\<close>

definition SettingsPage_rebuildVectorStore ::
  "(string \<Rightarrow> json option) \<Rightarrow> (request \<Rightarrow> error + response) \<Rightarrow> string \<Rightarrow> string option
     \<Rightarrow> (rat \<Rightarrow> string) \<Rightarrow> string \<Rightarrow> error + json \<Rightarrow> ui_action list world
     \<Rightarrow> ui_action list world option" where
  "SettingsPage_rebuildVectorStore parse net baseURL token num_str type_error_text stats w =
     (let w0 = w\<lparr>caller := caller w @ [SetIsLoading True, SetRebuildProgress Starting]\<rparr>
      in case rebuildVectorStoreWithProgress parse net baseURL token None
                (Some page_onProgress) w0 of
           None \<Rightarrow> None
         | Some (result, w1) \<Rightarrow>
             (let thrown =
                    (case result of
                       Inl e \<Rightarrow> Some e
                     | Inr out \<Rightarrow>
                         if success out then None
                         else Some (failure_error num_str type_error_text (data out)));
                  acts =
                    (case thrown of
                       None \<Rightarrow>
                         fetchBackupStats stats
                           (caller w1 @ [SetRebuildProgress Completed, ShowToast success_toast])
                     | Some e \<Rightarrow>
                         caller w1 @ [SetRebuildProgress Failed, ShowToast (failure_toast e)])
              in Some (w1\<lparr>caller := acts @ [SetIsLoading False]\<rparr>)))"

subsection \<open>Events of a stream\<close>

text \<open>
  The value a line stands for: the parsed payload of a line that starts with the
  marker, if it parses.
\<close>

definition event_of :: "(string \<Rightarrow> json option) \<Rightarrow> string \<Rightarrow> json option" where
  "event_of parse line = (if startsWith line ''data: '' then parse (slice 6 line) else None)"

definition terminal :: "json \<Rightarrow> bool" where
  "terminal d =
     (field ''status'' d = Some (JStr ''completed'') \<or> field ''status'' d = Some (JStr ''failed''))"

text \<open>A line that carries no terminal event.\<close>

definition quiet :: "(string \<Rightarrow> json option) \<Rightarrow> string \<Rightarrow> bool" where
  "quiet parse line = (case event_of parse line of None \<Rightarrow> True | Some d \<Rightarrow> \<not> terminal d)"

text \<open>The events of a chunk, and of the reads \<open>i, ..., m - 1\<close> of a reader, in order.\<close>

definition chunk_events :: "(string \<Rightarrow> json option) \<Rightarrow> string \<Rightarrow> json list" where
  "chunk_events parse chunk = List.map_filter (event_of parse) (split newline chunk)"

definition read_events :: "(string \<Rightarrow> json option) \<Rightarrow> read_result \<Rightarrow> json list" where
  "read_events parse r = (case r of Value chunk \<Rightarrow> chunk_events parse chunk | _ \<Rightarrow> [])"

definition events_between :: "(string \<Rightarrow> json option) \<Rightarrow> reader \<Rightarrow> nat \<Rightarrow> nat \<Rightarrow> json list" where
  "events_between parse rd i m = concat (map (\<lambda>k. read_events parse (rd k)) [i..<m])"

text \<open>
  What a callback does on an event, whatever the caller's state: it throws; it leaves
  the event without a terminal status (where it returns); it returns and leaves the
  event as it was.
\<close>

fun throws_on :: "'s callback option \<Rightarrow> json \<Rightarrow> bool" where
  "throws_on None d = False"
| "throws_on (Some cb) d = (\<forall>s. \<exists>s'. cb d s = Throws s')"

fun leaves_quiet :: "'s callback option \<Rightarrow> json \<Rightarrow> bool" where
  "leaves_quiet None d = (\<not> terminal d)"
| "leaves_quiet (Some cb) d = (\<forall>s s' d'. cb d s = Returns s' d' \<longrightarrow> \<not> terminal (left_by d d'))"

fun returns_keeping :: "'s callback option \<Rightarrow> json \<Rightarrow> bool" where
  "returns_keeping None d = True"
| "returns_keeping (Some cb) d = (\<forall>s. \<exists>s' d'. cb d s = Returns s' d' \<and> left_by d d' = d)"

text \<open>
  The reference for the order of delivery: the events of a list are given to the
  callback one after the other, each once, up to the first one on which the callback
  returns and which it leaves with a terminal status; that one ends the run with its
  outcome.
\<close>

record 's delivery =
  given :: "json list"
  state_after :: 's
  ended_with :: "outcome option"

fun deliver :: "'s callback \<Rightarrow> json list \<Rightarrow> 's \<Rightarrow> 's delivery" where
  "deliver cb [] s = \<lparr>given = [], state_after = s, ended_with = None\<rparr>"
| "deliver cb (d # ds) s =
     (case cb d s of
        Throws s' \<Rightarrow> (let rest = deliver cb ds s' in rest\<lparr>given := d # given rest\<rparr>)
      | Returns s' d' \<Rightarrow>
          if terminal (left_by d d')
          then \<lparr>given = [d], state_after = s',
                ended_with = Some \<lparr>success = (field ''status'' (left_by d d') = Some (JStr ''completed'')),
                                    data = left_by d d'\<rparr>\<rparr>
          else (let rest = deliver cb ds s' in rest\<lparr>given := d # given rest\<rparr>))"

text \<open>The \<^verbatim>\<open>progress\<close> of an event, where it is a number.\<close>

definition progress :: "json \<Rightarrow> rat option" where
  "progress d = (case field ''progress'' d of Some (JNum n) \<Rightarrow> Some n | _ \<Rightarrow> None)"

definition progress_le :: "json \<Rightarrow> json \<Rightarrow> bool" where
  "progress_le d d' =
     (case (progress d, progress d') of (Some n, Some n') \<Rightarrow> n \<le> n' | _ \<Rightarrow> False)"

text \<open>A reader that yields the chunks of a list and then reports the end.\<close>

definition reader_of :: "string list \<Rightarrow> reader" where
  "reader_of chunks i = (if i < length chunks then Value (chunks ! i) else Done)"

definition streaming :: "string list \<Rightarrow> request \<Rightarrow> error + response" where
  "streaming chunks req =
     Inr \<lparr>status_code = 200, statusText = ''OK'', body = Some (reader_of chunks)\<rparr>"

definition initial :: "'s \<Rightarrow> 's world" where
  "initial s = \<lparr>requests = [], warnings = [], calls = [], reads = 0, locked = False, caller = s\<rparr>"

subsection \<open>Sample data\<close>

text \<open>
  Payloads of the examples and the values \<^verbatim>\<open>JSON.parse\<close> gives for them.
  \<open>sample_parse\<close> is \<^verbatim>\<open>JSON.parse\<close> on the texts the examples run it on: these
  payloads, one of them also with a space, or the carriage return of a CRLF line end,
  after it (white space after a value is allowed), and texts that are no JSON (the
  empty text, cut payloads, \<^verbatim>\<open>{not json\<close>).
\<close>

definition text_processing :: string where
  \<open>text_processing = ''{"status":"processing","progress":40}''\<close>

definition text_completed :: string where
  \<open>text_completed = ''{"status":"completed","progress":100}''\<close>

definition text_failed :: string where
  \<open>text_failed = ''{"status":"failed","message":"X"}''\<close>

definition ev_processing :: json where
  "ev_processing = JObj [(''status'', JStr ''processing''), (''progress'', JNum 40)]"

definition ev_completed :: json where
  "ev_completed = JObj [(''status'', JStr ''completed''), (''progress'', JNum 100)]"

definition ev_failed :: json where
  "ev_failed = JObj [(''status'', JStr ''failed''), (''message'', JStr ''X'')]"

definition carriage_return :: char where
  "carriage_return = CHR 0x0D"

definition sample_parse :: "string \<Rightarrow> json option" where
  "sample_parse =
     map_of [(text_processing, ev_processing),
             (text_completed, ev_completed),
             (text_failed, ev_failed),
             (text_failed @ '' '', ev_failed),
             (text_failed @ [carriage_return], ev_failed)]"

definition line_of :: "string \<Rightarrow> string" where
  "line_of payload = ''data: '' @ payload"

text \<open>A frame as the server writes it: the line and an empty line.\<close>

definition frame :: "string \<Rightarrow> string" where
  "frame payload = line_of payload @ [newline, newline]"

text \<open>
  Three callbacks that record their arguments: one does nothing else, one then throws,
  and one then sets the status of its argument to \<^verbatim>\<open>completed\<close>.
\<close>

definition recording :: "json list callback" where
  "recording d s = Returns (s @ [d]) d"

definition throwing :: "json list callback" where
  "throwing d s = Throws (s @ [d])"

definition completing :: "json list callback" where
  "completing d s =
     (case assign ''status'' (JStr ''completed'') d of
        Some d' \<Rightarrow> Returns (s @ [d]) d'
      | None \<Rightarrow> Throws (s @ [d]))"

definition ev_processing_completed :: json where
  "ev_processing_completed = JObj [(''status'', JStr ''completed''), (''progress'', JNum 40)]"

definition sample_filters :: filters where
  "sample_filters = \<lparr>user_filter = Some ''u1'', document_filter = None, batch_size = Some 50\<rparr>"

text \<open>One chunk with a line that does not parse, and the same chunk without that line.\<close>

definition chunk_with_bad :: string where
  "chunk_with_bad = join newline [line_of text_processing, ''data: {not json'', line_of text_failed, [], []]"

definition chunk_without_bad :: string where
  "chunk_without_bad = join newline [line_of text_processing, line_of text_failed, [], []]"

text \<open>
  The line of the failed event cut inside its JSON text, the stream in which the two
  parts end one chunk and begin the next, and that stream without the line.
\<close>

definition cut_front :: string where
  "cut_front = take 20 (line_of text_failed)"

definition cut_back :: string where
  "cut_back = drop 20 (line_of text_failed)"

definition chunks_cut :: "string list" where
  "chunks_cut = [join newline [line_of text_processing, [], cut_front], join newline [cut_back, [], []]]"

definition chunks_cut_absent :: "string list" where
  "chunks_cut_absent = [join newline [line_of text_processing, []], join newline [[], []]]"

subsection \<open>Observing runs\<close>

text \<open>A world without its console output, for comparing runs up to warnings.\<close>

definition unwarn :: "'s world \<Rightarrow> 's world" where
  "unwarn w = w\<lparr>warnings := []\<rparr>"

fun unwarn_result :: "'s line_result \<Rightarrow> 's line_result" where
  "unwarn_result (Continue w) = Continue (unwarn w)"
| "unwarn_result (Return out w) = Return out (unwarn w)"

text \<open>A line that stands for an event.\<close>

definition is_event :: "(string \<Rightarrow> json option) \<Rightarrow> string \<Rightarrow> bool" where
  "is_event parse l = (event_of parse l \<noteq> None)"

text \<open>Two read results whose lines stand for the same events, in the same order.\<close>

definition similar_read :: "(string \<Rightarrow> json option) \<Rightarrow> read_result \<Rightarrow> read_result \<Rightarrow> bool" where
  "similar_read parse r r' =
     (case (r, r') of
        (Value c, Value c') \<Rightarrow>
          filter (is_event parse) (split newline c)
          = filter (is_event parse) (split newline c')
      | _ \<Rightarrow> r = r')"

text \<open>The result of a run, up to warnings.\<close>

definition observe :: "('a \<times> 's world) option \<Rightarrow> ('a \<times> 's world) option" where
  "observe res = map_option (\<lambda>(r, w). (r, unwarn w)) res"

text \<open>
  A line on which the loop goes on under a given callback, whatever the state: it
  carries no event, or the callback throws on the event it carries, or leaves it
  without a terminal status.
\<close>

definition silent :: "(string \<Rightarrow> json option) \<Rightarrow> 's callback option \<Rightarrow> string \<Rightarrow> bool" where
  "silent parse cb l =
     (case event_of parse l of None \<Rightarrow> True | Some d \<Rightarrow> throws_on cb d \<or> leaves_quiet cb d)"

text \<open>The world after an invocation.\<close>

fun invoked_world :: "'s invoked \<Rightarrow> 's world" where
  "invoked_world (Returned d w) = w"
| "invoked_world (Threw w) = w"

text \<open>What a run returned or threw, and a component of its final world.\<close>

definition returned :: "('a \<times> 's world) option \<Rightarrow> 'a option" where
  "returned res = map_option fst res"

definition final :: "('s world \<Rightarrow> 'b) \<Rightarrow> ('a \<times> 's world) option \<Rightarrow> 'b option" where
  "final f res = map_option (\<lambda>(r, w). f w) res"

text \<open>A server that answers every request with status 500.\<close>

definition server_error :: "request \<Rightarrow> error + response" where
  "server_error req =
     Inr \<lparr>status_code = 500, statusText = ''Internal Server Error'',
          body = Some (reader_of [])\<rparr>"

text \<open>The actions of the settings page after a run of its handler.\<close>

definition page_actions :: "ui_action list world option \<Rightarrow> ui_action list option" where
  "page_actions res = map_option caller res"

text \<open>
  Number printing for the examples: right on integer-valued numbers below \<open>10^21\<close>.
\<close>

definition integral_num_str :: "rat \<Rightarrow> string" where
  "integral_num_str n = number_toString \<lfloor>n\<rfloor>"

text \<open>The message of the conversion's \<^verbatim>\<open>TypeError\<close> in V8.\<close>

definition v8_type_error_text :: string where
  "v8_type_error_text = ''Cannot convert object to primitive value''"

section \<open>Properties\<close>

subsection \<open>Splitting into lines\<close>

lemma split_not_Nil [simp]: "split sep s \<noteq> []"
  by (induction s) (auto split: list.splits)

lemma split_no_sep: "sep \<notin> set l \<Longrightarrow> split sep l = [l]"
  by (induction l) auto

lemma split_append_sep: "sep \<notin> set l \<Longrightarrow> split sep (l @ sep # s) = l # split sep s"
  by (induction l) (auto split: list.splits)

lemma split_join:
  "ls \<noteq> [] \<Longrightarrow> \<forall>l\<in>set ls. sep \<notin> set l \<Longrightarrow> split sep (join sep ls) = ls"
proof (induction sep ls rule: join.induct)
  case (1 sep)
  then show ?case by simp
next
  case (2 sep l)
  then show ?case by (simp add: split_no_sep)
next
  case (3 sep l l' ls)
  then show ?case by (simp add: split_append_sep)
qed

lemma event_of_Nil [simp]: "event_of parse [] = None"
  by (simp add: event_of_def startsWith_def)

subsection \<open>Runs up to warnings\<close>

lemma unwarn_eq_iff:
  "unwarn w = unwarn w' \<longleftrightarrow> (\<exists>ws. w' = w\<lparr>warnings := ws\<rparr>)"
  unfolding unwarn_def
  by (cases w; cases w') auto

lemma unwarn_simps [simp]:
  "unwarn (console_warn l w) = unwarn w"
  "unwarn (w\<lparr>warnings := ws\<rparr>) = unwarn w"
  "unwarn (unwarn w) = unwarn w"
  "reads (unwarn w) = reads w" "calls (unwarn w) = calls w" "caller (unwarn w) = caller w"
  "requests (unwarn w) = requests w" "locked (unwarn w) = locked w"
  "unwarn (w\<lparr>reads := n\<rparr>) = (unwarn w)\<lparr>reads := n\<rparr>"
  "unwarn (w\<lparr>locked := b\<rparr>) = (unwarn w)\<lparr>locked := b\<rparr>"
  by (simp_all add: unwarn_def console_warn_def)

lemma invoke_warnings:
  "invoke cb d (w\<lparr>warnings := ws\<rparr>) =
     (case invoke cb d w of
        Returned d' w' \<Rightarrow> Returned d' (w'\<lparr>warnings := ws\<rparr>)
      | Threw w' \<Rightarrow> Threw (w'\<lparr>warnings := ws\<rparr>))"
  by (cases cb) (auto split: callback_result.splits)

lemma process_line_warnings:
  "unwarn_result (process_line parse cb l (w\<lparr>warnings := ws\<rparr>)) = unwarn_result (process_line parse cb l w)"
  unfolding process_line_def
  by (auto simp: invoke_warnings simp del: invoke.simps split: option.splits invoked.splits json.splits)

lemma process_line_unwarn:
  assumes "unwarn w = unwarn w'"
  shows "unwarn_result (process_line parse cb l w) = unwarn_result (process_line parse cb l w')"
proof -
  from assms obtain ws where "w' = w\<lparr>warnings := ws\<rparr>" by (auto simp: unwarn_eq_iff)
  then show ?thesis by (simp add: process_line_warnings)
qed

lemma unwarn_result_Continue: "unwarn_result r = Continue u \<longleftrightarrow> (\<exists>w. r = Continue w \<and> u = unwarn w)"
  by (cases r) auto

lemma unwarn_result_Return: "unwarn_result r = Return out u \<longleftrightarrow> (\<exists>w. r = Return out w \<and> u = unwarn w)"
  by (cases r) auto

lemma process_lines_unwarn:
  "unwarn w = unwarn w' \<Longrightarrow>
   unwarn_result (process_lines parse cb ls w) = unwarn_result (process_lines parse cb ls w')"
proof (induction ls arbitrary: w w')
  case Nil
  then show ?case by simp
next
  case (Cons l ls)
  from process_line_unwarn[OF Cons.prems, of parse cb l]
  show ?case
    by (cases "process_line parse cb l w"; cases "process_line parse cb l w'")
       (auto intro: Cons.IH)
qed

lemma process_line_no_event:
  "event_of parse l = None \<Longrightarrow> unwarn_result (process_line parse cb l w) = Continue (unwarn w)"
  by (auto simp: event_of_def process_line_def split: if_splits)

lemma process_lines_filter:
  "unwarn_result (process_lines parse cb (filter (is_event parse) ls) w)
   = unwarn_result (process_lines parse cb ls w)"
proof (induction ls arbitrary: w)
  case Nil
  then show ?case by simp
next
  case (Cons l ls)
  show ?case
  proof (cases "event_of parse l")
    case None
    then have ne: "\<not> is_event parse l" by (simp add: is_event_def)
    from process_line_no_event[OF None, of cb w]
    obtain w1 where w1: "process_line parse cb l w = Continue w1" "unwarn w1 = unwarn w"
      by (auto simp: unwarn_result_Continue)
    have "unwarn_result (process_lines parse cb ls w1) = unwarn_result (process_lines parse cb ls w)"
      by (rule process_lines_unwarn) (rule w1)
    with ne w1 Cons.IH[of w] show ?thesis by simp
  next
    case (Some d)
    then have "is_event parse l" by (simp add: is_event_def)
    then show ?thesis
      by (cases "process_line parse cb l w") (simp_all add: Cons.IH)
  qed
qed

lemma process_lines_similar:
  assumes "filter (is_event parse) ls = filter (is_event parse) ls'"
      and "unwarn w = unwarn w'"
  shows "unwarn_result (process_lines parse cb ls w) = unwarn_result (process_lines parse cb ls' w')"
proof -
  have "unwarn_result (process_lines parse cb ls w)
        = unwarn_result (process_lines parse cb (filter (is_event parse) ls') w)"
    using assms(1) process_lines_filter[of parse cb ls w] by simp
  also have "\<dots> = unwarn_result (process_lines parse cb ls' w)"
    by (rule process_lines_filter)
  also have "\<dots> = unwarn_result (process_lines parse cb ls' w')"
    by (rule process_lines_unwarn) (rule assms(2))
  finally show ?thesis .
qed

lemma similar_read_sym: "similar_read parse r r' \<Longrightarrow> similar_read parse r' r"
  by (auto simp: similar_read_def split: read_result.splits)

lemma read_loop_similar_step:
  assumes "read_loop parse cb rd w = Some res"
  shows "\<forall>rd' w'. (\<forall>i. similar_read parse (rd i) (rd' i)) \<longrightarrow> unwarn w = unwarn w' \<longrightarrow>
           (\<exists>w1. read_loop parse cb rd' w' = Some (fst res, w1) \<and> unwarn w1 = unwarn (snd res))"
  using assms
proof (induction rule: read_loop.raw_induct[rotated 1, consumes 1, case_names step])
  case (step loop parse cb rd w res)
  show ?case
  proof (intro allI impI)
    fix rd' w'
    assume sim: "\<forall>i. similar_read parse (rd i) (rd' i)" and uw: "unwarn w = unwarn w'"
    from uw have rds: "reads w' = reads w" by (metis unwarn_simps(4))
    from uw have uw1: "unwarn (w\<lparr>reads := Suc (reads w)\<rparr>) = unwarn (w'\<lparr>reads := Suc (reads w')\<rparr>)"
      by (simp add: rds)
    from sim have s: "similar_read parse (rd (reads w)) (rd' (reads w))" by blast
    show "\<exists>w1. read_loop parse cb rd' w' = Some (fst res, w1) \<and> unwarn w1 = unwarn (snd res)"
    proof (cases "rd (reads w)")
      case (Value c)
      with s obtain c' where c': "rd' (reads w) = Value c'"
        and flt: "filter (is_event parse) (split newline c)
                  = filter (is_event parse) (split newline c')"
        by (auto simp: similar_read_def split: read_result.splits)
      have eq: "unwarn_result (process_lines parse cb (split newline c) (w\<lparr>reads := Suc (reads w)\<rparr>))
              = unwarn_result (process_lines parse cb (split newline c') (w'\<lparr>reads := Suc (reads w')\<rparr>))"
        by (rule process_lines_similar[OF flt uw1])
      show ?thesis
      proof (cases "process_lines parse cb (split newline c) (w\<lparr>reads := Suc (reads w)\<rparr>)")
        case (Continue w1)
        with eq obtain w1' where w1': "process_lines parse cb (split newline c') (w'\<lparr>reads := Suc (reads w')\<rparr>) = Continue w1'"
          "unwarn w1 = unwarn w1'"
          by (metis unwarn_result.simps(1) unwarn_result_Continue)
        from step(2) Value Continue have "loop parse cb rd w1 = Some res" by simp
        from step(1)[OF this] sim w1'(2)
        obtain w2 where "read_loop parse cb rd' w1' = Some (fst res, w2)" "unwarn w2 = unwarn (snd res)"
          by blast
        with c' w1' rds show ?thesis
          by (subst read_loop.simps) simp
      next
        case (Return out w1)
        with eq obtain w1' where w1': "process_lines parse cb (split newline c') (w'\<lparr>reads := Suc (reads w')\<rparr>) = Return out w1'"
          "unwarn w1 = unwarn w1'"
          by (metis unwarn_result.simps(2) unwarn_result_Return)
        from step(2) Value Return have "res = (Inr (Some out), w1)" by simp
        with c' w1' rds show ?thesis
          by (subst read_loop.simps) simp
      qed
    next
      case Done
      with s have "rd' (reads w) = Done" by (auto simp: similar_read_def split: read_result.splits)
      with step(2) Done rds uw show ?thesis
        by (subst read_loop.simps) (auto simp: rds)
    next
      case (Rejected e)
      with s have "rd' (reads w) = Rejected e" by (auto simp: similar_read_def split: read_result.splits)
      with step(2) Rejected rds uw show ?thesis
        by (subst read_loop.simps) (auto simp: rds)
    qed
  qed
qed

lemma read_loop_similar:
  assumes "\<forall>i. similar_read parse (rd i) (rd' i)" and "unwarn w = unwarn w'"
  shows "observe (read_loop parse cb rd w) = observe (read_loop parse cb rd' w')"
proof (cases "read_loop parse cb rd w")
  case None
  show ?thesis
  proof (cases "read_loop parse cb rd' w'")
    case None': None
    with None show ?thesis by (simp add: observe_def)
  next
    case (Some res')
    from assms(1) have "\<forall>i. similar_read parse (rd' i) (rd i)" by (blast intro: similar_read_sym)
    with read_loop_similar_step[OF Some] assms(2)[symmetric] None show ?thesis by fastforce
  qed
next
  case (Some res)
  from read_loop_similar_step[OF Some] assms
  obtain w1 where "read_loop parse cb rd' w' = Some (fst res, w1)" "unwarn w1 = unwarn (snd res)"
    by blast
  with Some show ?thesis by (cases res) (simp add: observe_def)
qed

subsection \<open>Lines on which the loop goes on, and the line on which it returns\<close>

lemma terminal_not_null [simp]: "\<not> terminal JNull"
  by (simp add: terminal_def)

lemma invoke_frame [simp]:
  "requests (invoked_world (invoke cb d w)) = requests w"
  "reads (invoked_world (invoke cb d w)) = reads w"
  "locked (invoked_world (invoke cb d w)) = locked w"
  "warnings (invoked_world (invoke cb d w)) = warnings w"
  by (cases cb; auto split: callback_result.splits)+

lemma invoke_throws:
  assumes "throws_on cb d"
  shows "invoke cb d w = Threw (invoked_world (invoke cb d w))"
proof (cases cb)
  case None
  with assms show ?thesis by simp
next
  case (Some f)
  with assms obtain s' where "f d (caller w) = Throws s'" by auto
  with Some show ?thesis by simp
qed

lemma invoke_leaves_quiet:
  assumes "leaves_quiet cb d" "invoke cb d w = Returned d' w'"
  shows "\<not> terminal d'"
proof (cases cb)
  case None
  with assms show ?thesis by simp
next
  case (Some f)
  with assms show ?thesis by (auto split: callback_result.splits)
qed

lemma invoke_returns_keeping:
  assumes "returns_keeping cb d"
  shows "invoke cb d w = Returned d (invoked_world (invoke cb d w))"
proof (cases cb)
  case None
  then show ?thesis by simp
next
  case (Some f)
  with assms have "\<exists>s' d'. f d (caller w) = Returns s' d' \<and> left_by d d' = d" by simp
  then obtain s' d' where "f d (caller w) = Returns s' d'" "left_by d d' = d" by blast
  with Some show ?thesis by simp
qed

lemma process_line_event:
  assumes "event_of parse l = Some d"
  shows "process_line parse cb l w =
           (case invoke cb d w of
              Threw w' \<Rightarrow> Continue (console_warn l w')
            | Returned d' w' \<Rightarrow>
                if d' = JNull then Continue (console_warn l w')
                else if terminal d'
                  then Return \<lparr>success = (field ''status'' d' = Some (JStr ''completed'')), data = d'\<rparr> w'
                  else Continue w')"
  using assms unfolding process_line_def event_of_def terminal_def
  by (auto simp del: invoke.simps split: if_splits invoked.splits json.splits)

lemma process_line_none:
  assumes "event_of parse l = None"
  shows "process_line parse cb l w
         = Continue (if startsWith l ''data: '' then console_warn l w else w)"
  using assms unfolding process_line_def event_of_def by (auto split: if_splits)

lemma reads_console_warn [simp]: "reads (console_warn l w) = reads w"
  by (simp add: console_warn_def)

lemma process_line_silent:
  assumes "silent parse cb l"
  shows "\<exists>w'. process_line parse cb l w = Continue w' \<and> reads w' = reads w"
proof (cases "event_of parse l")
  case None
  then show ?thesis by (simp add: process_line_none)
next
  case (Some d)
  with assms have d: "throws_on cb d \<or> leaves_quiet cb d" by (simp add: silent_def)
  show ?thesis
  proof (cases "invoke cb d w")
    case (Threw w')
    with invoke_frame(2)[of cb d w] show ?thesis
      by (simp add: process_line_event[OF Some])
  next
    case (Returned d' w')
    with d invoke_throws[of cb d w] have "leaves_quiet cb d" by auto
    then have "\<not> terminal d'" using Returned by (rule invoke_leaves_quiet)
    with Returned invoke_frame(2)[of cb d w] show ?thesis
      by (simp add: process_line_event[OF Some])
  qed
qed

lemma process_lines_silent:
  "\<forall>l\<in>set ls. silent parse cb l \<Longrightarrow>
   \<exists>w'. process_lines parse cb ls w = Continue w' \<and> reads w' = reads w"
proof (induction ls arbitrary: w)
  case Nil
  then show ?case by simp
next
  case (Cons l ls)
  then obtain w1 where w1: "process_line parse cb l w = Continue w1" "reads w1 = reads w"
    using process_line_silent[of parse cb l w] by auto
  from Cons obtain w' where "process_lines parse cb ls w1 = Continue w'" "reads w' = reads w1"
    by (metis list.set_intros(2))
  with w1 show ?case by simp
qed

lemma process_lines_append:
  "process_lines parse cb (xs @ ys) w =
     (case process_lines parse cb xs w of
        Return out w' \<Rightarrow> Return out w'
      | Continue w' \<Rightarrow> process_lines parse cb ys w')"
  by (induction xs arbitrary: w) (auto split: line_result.splits)

lemma process_line_return:
  assumes "event_of parse l = Some e" "terminal e" "returns_keeping cb e"
  shows "process_line parse cb l w =
           Return \<lparr>success = (field ''status'' e = Some (JStr ''completed'')), data = e\<rparr>
             (invoked_world (invoke cb e w))"
proof -
  from assms(2) have ne: "e \<noteq> JNull" by auto
  obtain w' where iv: "invoke cb e w = Returned e w'"
    using invoke_returns_keeping[OF assms(3), of w] by blast
  then have "invoked_world (invoke cb e w) = w'" by simp
  with iv ne assms(2) show ?thesis
    by (simp add: process_line_event[OF assms(1)] del: invoke.simps)
qed

lemma read_loop_skip:
  "\<forall>k<n. \<exists>c. rd (reads w + k) = Value c \<and> (\<forall>l\<in>set (split newline c). silent parse cb l) \<Longrightarrow>
   \<exists>w'. read_loop parse cb rd w = read_loop parse cb rd w' \<and> reads w' = reads w + n"
proof (induction n arbitrary: w)
  case 0
  then show ?case by auto
next
  case (Suc n)
  from Suc.prems obtain c where c: "rd (reads w) = Value c" "\<forall>l\<in>set (split newline c). silent parse cb l"
    by force
  from process_lines_silent[OF c(2), of "w\<lparr>reads := Suc (reads w)\<rparr>"]
  obtain w1 where w1: "process_lines parse cb (split newline c) (w\<lparr>reads := Suc (reads w)\<rparr>) = Continue w1"
    "reads w1 = Suc (reads w)" by auto
  have step: "read_loop parse cb rd w = read_loop parse cb rd w1"
    by (subst read_loop.simps) (simp add: c w1)
  have "\<forall>k<n. \<exists>c. rd (reads w1 + k) = Value c \<and> (\<forall>l\<in>set (split newline c). silent parse cb l)"
  proof (intro allI impI)
    fix k assume "k < n"
    then have "Suc k < Suc n" by simp
    with Suc.prems have "\<exists>c. rd (reads w + Suc k) = Value c \<and> (\<forall>l\<in>set (split newline c). silent parse cb l)"
      by blast
    then show "\<exists>c. rd (reads w1 + k) = Value c \<and> (\<forall>l\<in>set (split newline c). silent parse cb l)"
      by (simp add: w1)
  qed
  from Suc.IH[OF this] obtain w' where "read_loop parse cb rd w1 = read_loop parse cb rd w'"
    "reads w' = reads w1 + n" by auto
  with step w1 show ?case by auto
qed

lemma read_loop_done:
  assumes "\<forall>k<n. \<exists>c. rd (reads w + k) = Value c \<and> (\<forall>l\<in>set (split newline c). silent parse cb l)"
      and "rd (reads w + n) = Done"
  shows "\<exists>w'. read_loop parse cb rd w = Some (Inr None, w') \<and> reads w' = Suc (reads w + n)"
proof -
  from read_loop_skip[OF assms(1)] obtain w1 where
    w1: "read_loop parse cb rd w = read_loop parse cb rd w1" "reads w1 = reads w + n" by auto
  have "read_loop parse cb rd w1 = Some (Inr None, w1\<lparr>reads := Suc (reads w1)\<rparr>)"
    by (subst read_loop.simps) (simp add: w1 assms(2))
  with w1 show ?thesis by simp
qed

lemma read_loop_terminal:
  assumes "\<forall>k<n. \<exists>c. rd (reads w + k) = Value c \<and> (\<forall>l\<in>set (split newline c). silent parse cb l)"
      and "rd (reads w + n) = Value c" "split newline c = before @ l # after"
      and "\<forall>l'\<in>set before. silent parse cb l'"
      and "event_of parse l = Some e" "terminal e" "returns_keeping cb e"
  shows "\<exists>w' v. read_loop parse cb rd w =
                 Some (Inr (Some \<lparr>success = (field ''status'' e = Some (JStr ''completed'')),
                                   data = e\<rparr>), w')
               \<and> reads w' = Suc (reads w + n) \<and> w' = invoked_world (invoke cb e v)"
proof -
  let ?out = "\<lparr>success = (field ''status'' e = Some (JStr ''completed'')), data = e\<rparr>"
  from read_loop_skip[OF assms(1)] obtain w1 where
    w1: "read_loop parse cb rd w = read_loop parse cb rd w1" "reads w1 = reads w + n" by auto
  from process_lines_silent[OF assms(4), of "w1\<lparr>reads := Suc (reads w1)\<rparr>"]
  obtain w2 where w2: "process_lines parse cb before (w1\<lparr>reads := Suc (reads w1)\<rparr>) = Continue w2"
    "reads w2 = Suc (reads w1)" by auto
  have w3: "process_line parse cb l w2 = Return ?out (invoked_world (invoke cb e w2))"
    by (rule process_line_return) (rule assms)+
  have "process_lines parse cb (split newline c) (w1\<lparr>reads := Suc (reads w1)\<rparr>) =
      Return ?out (invoked_world (invoke cb e w2))"
    by (simp add: assms(3) process_lines_append w2 w3)
  then have "read_loop parse cb rd w1 = Some (Inr (Some ?out), invoked_world (invoke cb e w2))"
    by (subst read_loop.simps) (simp add: w1 assms(2))
  with w1 w2 show ?thesis by auto
qed

lemma rebuild_streaming:
  assumes "net (stream_request baseURL token fs) = Inr resp" "ok resp" "body resp = Some rd"
  shows "rebuildVectorStoreWithProgress parse net baseURL token fs cb w =
           (case read_loop parse cb rd
                   (w\<lparr>requests := requests w @ [stream_request baseURL token fs],
                      reads := 0, locked := True\<rparr>) of
              None \<Rightarrow> None
            | Some (r, w2) \<Rightarrow>
                Some (case r of Inl e \<Rightarrow> Inl e | Inr (Some out) \<Rightarrow> Inr out
                              | Inr None \<Rightarrow> Inr fallback_outcome,
                      w2\<lparr>locked := False\<rparr>))"
  using assms unfolding rebuildVectorStoreWithProgress_def fetch_def
  by (auto simp: Let_def split: option.splits sum.splits)

lemma process_line_frame:
  "process_line parse cb l w = Continue w' \<or> process_line parse cb l w = Return out w'
    \<Longrightarrow> requests w' = requests w \<and> reads w' = reads w \<and> locked w' = locked w"
proof (cases "event_of parse l")
  case None
  then show "process_line parse cb l w = Continue w' \<or> process_line parse cb l w = Return out w'
    \<Longrightarrow> ?thesis"
    by (auto simp: process_line_none console_warn_def split: if_splits)
next
  case (Some d)
  assume a: "process_line parse cb l w = Continue w' \<or> process_line parse cb l w = Return out w'"
  show ?thesis
  proof (cases "invoke cb d w")
    case (Returned d' v)
    with invoke_frame[of cb d w]
    have "requests v = requests w" "reads v = reads w" "locked v = locked w" by simp_all
    with a Some Returned show ?thesis
      by (auto simp: process_line_event console_warn_def simp del: invoke.simps split: if_splits)
  next
    case (Threw v)
    with invoke_frame[of cb d w]
    have "requests v = requests w" "reads v = reads w" "locked v = locked w" by simp_all
    with a Some Threw show ?thesis
      by (auto simp: process_line_event console_warn_def simp del: invoke.simps)
  qed
qed

lemma process_lines_frame:
  "process_lines parse cb ls w = Continue w' \<or> process_lines parse cb ls w = Return out w'
    \<Longrightarrow> requests w' = requests w \<and> reads w' = reads w \<and> locked w' = locked w"
proof (induction ls arbitrary: w)
  case Nil
  then show ?case by simp
next
  case (Cons l ls)
  show ?case
  proof (cases "process_line parse cb l w")
    case (Continue w1)
    with Cons.prems have "process_lines parse cb ls w1 = Continue w' \<or> process_lines parse cb ls w1 = Return out w'"
      by simp
    from Cons.IH[OF this] process_line_frame[of parse cb l w w1] Continue show ?thesis by simp
  next
    case (Return o1 w1)
    with Cons.prems have "w1 = w'" by simp
    with Return process_line_frame[of parse cb l w w' o1] show ?thesis by simp
  qed
qed

lemma read_loop_requests:
  "read_loop parse cb rd w = Some res \<Longrightarrow> requests (snd res) = requests w \<and> locked (snd res) = locked w"
proof (induction rule: read_loop.raw_induct[rotated 1, consumes 1, case_names step])
  case (step loop parse cb rd w res)
  note 1 = step
  show ?case
  proof (cases "rd (reads w)")
    case (Value c)
    show ?thesis
    proof (cases "process_lines parse cb (split newline c) (w\<lparr>reads := Suc (reads w)\<rparr>)")
      case (Continue w1)
      with 1(2) Value have "loop parse cb rd w1 = Some res" by simp
      from 1(1)[OF this] process_lines_frame[of parse cb _ _ w1] Continue show ?thesis by fastforce
    next
      case (Return o1 w1)
      with 1(2) Value have "res = (Inr (Some o1), w1)" by simp
      with process_lines_frame[of parse cb _ _ w1 o1] Return show ?thesis by fastforce
    qed
  next
    case Done
    with 1(2) show ?thesis by auto
  next
    case (Rejected e)
    with 1(2) show ?thesis by auto
  qed
qed

subsection \<open>The query string of the sample filters\<close>

lemma sample_query: "params_toString (rebuild_params (Some sample_filters)) = ''user_filter=u1&batch_size=50''"
  by code_simp

lemma sample_params: "rebuild_params (Some sample_filters) = [(''user_filter'', ''u1''), (''batch_size'', ''50'')]"
  by code_simp

lemma no_filters: "rebuild_params None = []" "rebuild_params (Some \<lparr>user_filter = None, document_filter = None, batch_size = None\<rparr>) = []"
  by (simp_all add: rebuild_params_def)

subsection \<open>Runs of the whole operation\<close>

lemma rebuild_done:
  assumes "net (stream_request baseURL token fs) = Inr resp" "ok resp" "body resp = Some rd"
      and "\<forall>k<n. \<exists>c. rd k = Value c \<and> (\<forall>l\<in>set (split newline c). silent parse cb l)"
      and "rd n = Done"
  shows "\<exists>w'. rebuildVectorStoreWithProgress parse net baseURL token fs cb w
                 = Some (Inr fallback_outcome, w') \<and> reads w' = Suc n"
proof -
  let ?w1 = "w\<lparr>requests := requests w @ [stream_request baseURL token fs], reads := 0, locked := True\<rparr>"
  have "\<exists>w'. read_loop parse cb rd ?w1 = Some (Inr None, w') \<and> reads w' = Suc (reads ?w1 + n)"
    by (rule read_loop_done) (simp_all add: assms)
  then obtain w2 where "read_loop parse cb rd ?w1 = Some (Inr None, w2)" "reads w2 = Suc n"
    by auto
  then show ?thesis
    by (simp add: rebuild_streaming[where net = net and resp = resp, OF assms(1-3)])
qed

lemma rebuild_terminal:
  assumes "net (stream_request baseURL token fs) = Inr resp" "ok resp" "body resp = Some rd"
      and "\<forall>k<n. \<exists>c. rd k = Value c \<and> (\<forall>l\<in>set (split newline c). silent parse cb l)"
      and "rd n = Value c" "split newline c = before @ l # after"
      and "\<forall>l'\<in>set before. silent parse cb l'"
      and "event_of parse l = Some e" "terminal e" "returns_keeping cb e"
  shows "\<exists>w' v. rebuildVectorStoreWithProgress parse net baseURL token fs cb w
                 = Some (Inr \<lparr>success = (field ''status'' e = Some (JStr ''completed'')), data = e\<rparr>, w')
               \<and> reads w' = Suc n \<and> w' = (invoked_world (invoke cb e v))\<lparr>locked := False\<rparr>"
proof -
  let ?w1 = "w\<lparr>requests := requests w @ [stream_request baseURL token fs], reads := 0, locked := True\<rparr>"
  let ?out = "\<lparr>success = (field ''status'' e = Some (JStr ''completed'')), data = e\<rparr>"
  have "\<exists>w' v. read_loop parse cb rd ?w1 = Some (Inr (Some ?out), w')
           \<and> reads w' = Suc (reads ?w1 + n) \<and> w' = invoked_world (invoke cb e v)"
    by (rule read_loop_terminal[where c = c and before = before and l = l and after = after])
       (simp_all add: assms)
  then obtain w2 v where "read_loop parse cb rd ?w1 = Some (Inr (Some ?out), w2)" "reads w2 = Suc n"
      "w2 = invoked_world (invoke cb e v)"
    by auto
  then have "rebuildVectorStoreWithProgress parse net baseURL token fs cb w
               = Some (Inr ?out, (invoked_world (invoke cb e v))\<lparr>locked := False\<rparr>)
             \<and> reads ((invoked_world (invoke cb e v))\<lparr>locked := False\<rparr>) = Suc n"
    by (simp add: rebuild_streaming[where net = net and resp = resp, OF assms(1-3)])
  then show ?thesis by blast
qed

lemma streaming_simps:
  "streaming chunks req = Inr \<lparr>status_code = 200, statusText = ''OK'', body = Some (reader_of chunks)\<rparr>"
  "ok \<lparr>status_code = 200, statusText = ''OK'', body = Some (reader_of chunks)\<rparr>"
  "body \<lparr>status_code = 200, statusText = ''OK'', body = Some (reader_of chunks)\<rparr> = Some (reader_of chunks)"
  by (simp_all add: streaming_def ok_def)

lemma quiet_frame_processing: "\<forall>l\<in>set (split newline (frame text_processing)). quiet sample_parse l"
  by code_simp

subsection \<open>The sample stream\<close>

lemma lines_frame_processing: "split newline (frame text_processing) = [line_of text_processing, [], []]"
  by code_simp

lemma lines_frame_completed: "split newline (frame text_completed) = [line_of text_completed, [], []]"
  by code_simp

lemma lines_frame_failed: "split newline (frame text_failed) = [line_of text_failed, [], []]"
  by code_simp

lemma sample_events:
  "event_of sample_parse (line_of text_processing) = Some ev_processing"
  "event_of sample_parse (line_of text_completed) = Some ev_completed"
  "event_of sample_parse (line_of text_failed) = Some ev_failed"
  by code_simp+

lemma sample_terminal:
  "\<not> terminal ev_processing" "terminal ev_completed" "terminal ev_failed"
  by code_simp+

lemma left_by_same [simp]: "left_by d d = d"
  by (cases d) simp_all

lemma returns_keeping_recording: "returns_keeping (Some recording) d"
  by (simp add: recording_def)

lemma silent_recording: "quiet parse l \<Longrightarrow> silent parse (Some recording) l"
  by (cases "event_of parse l")
     (auto simp: quiet_def silent_def recording_def split: option.splits)

lemma silent_None: "quiet parse l \<Longrightarrow> silent parse None l"
  by (auto simp: quiet_def silent_def split: option.splits)

lemma throws_on_throwing: "throws_on (Some throwing) d"
  by (simp add: throwing_def)

lemma silent_throwing: "silent parse (Some throwing) l"
  by (auto simp: silent_def throwing_def split: option.splits)

subsection \<open>Streams that differ in lines without events\<close>

lemma similar_read_refl: "similar_read parse r r"
  by (simp add: similar_read_def split: read_result.splits)

lemma filter_events_split_join:
  assumes "\<forall>l\<in>set ls. newline \<notin> set l"
  shows "filter (is_event parse) (split newline (join newline ls)) = filter (is_event parse) ls"
proof (cases "ls = []")
  case True
  then show ?thesis by (simp add: is_event_def)
next
  case False
  with assms show ?thesis by (simp add: split_join)
qed

lemma observe_finish:
  assumes "observe X = observe Y"
  shows "observe (case X of None \<Rightarrow> None | Some (r, w2) \<Rightarrow> Some (g r, w2\<lparr>locked := b\<rparr>))
       = observe (case Y of None \<Rightarrow> None | Some (r, w2) \<Rightarrow> Some (g r, w2\<lparr>locked := b\<rparr>))"
  using assms by (cases X; cases Y) (auto simp: observe_def)

lemma rebuild_similar:
  assumes "net (stream_request baseURL token fs) = Inr resp" "body resp = Some rd"
      and "net' (stream_request baseURL token fs) = Inr (resp\<lparr>body := Some rd'\<rparr>)"
      and "\<forall>i. similar_read parse (rd i) (rd' i)"
  shows "observe (rebuildVectorStoreWithProgress parse net baseURL token fs cb w)
       = observe (rebuildVectorStoreWithProgress parse net' baseURL token fs cb w)"
proof (cases "ok resp")
  case False
  then have "\<not> ok (resp\<lparr>body := Some rd'\<rparr>)" by (simp add: ok_def)
  with False assms(1,3) show ?thesis
    by (simp add: rebuildVectorStoreWithProgress_def fetch_def)
next
  case True
  then have ok': "ok (resp\<lparr>body := Some rd'\<rparr>)" by (simp add: ok_def)
  have b': "body (resp\<lparr>body := Some rd'\<rparr>) = Some rd'" by simp
  let ?w1 = "w\<lparr>requests := requests w @ [stream_request baseURL token fs], reads := 0, locked := True\<rparr>"
  have "observe (read_loop parse cb rd ?w1) = observe (read_loop parse cb rd' ?w1)"
    by (rule read_loop_similar) (simp_all add: assms(4))
  then show ?thesis
    unfolding rebuild_streaming[where net = net and resp = resp, OF assms(1) True assms(2)]
      rebuild_streaming[where net = net' and resp = "resp\<lparr>body := Some rd'\<rparr>", OF assms(3) ok' b']
    by (rule observe_finish)
qed

subsection \<open>A line cut in two\<close>

lemma marker_cut:
  assumes "startsWith line ''data: ''" "0 < k" "k < 6"
  shows "event_of parse (take k line) = None \<and> event_of parse (drop k line) = None"
proof -
  from assms(1) have "line = ''data: '' @ drop (length ''data: '') line"
    by (metis startsWith_def append_take_drop_id)
  then obtain rest where L: "line = ''data: '' @ rest" ..
  from assms(2,3) have "k = 1 \<or> k = 2 \<or> k = 3 \<or> k = 4 \<or> k = 5" by arith
  then show ?thesis
    unfolding L by (elim disjE) (simp_all add: event_of_def startsWith_def)
qed

lemma similar_read_chunks:
  assumes "\<forall>l\<in>set ls. newline \<notin> set l" "\<forall>l\<in>set ls'. newline \<notin> set l"
      and "filter (is_event parse) ls = filter (is_event parse) ls'"
  shows "similar_read parse (Value (join newline ls)) (Value (join newline ls'))"
  using assms by (simp add: similar_read_def filter_events_split_join)

subsection \<open>The loop against the reference for the order of delivery\<close>

lemma deliver_prefix: "prefix (given (deliver cb evs s)) evs"
  by (induction evs arbitrary: s) (auto simp: Let_def split: callback_result.splits)

lemma deliver_all:
  "ended_with (deliver cb evs s) = None \<Longrightarrow> given (deliver cb evs s) = evs"
  by (induction evs arbitrary: s) (auto simp: Let_def split: callback_result.splits if_splits)

lemma deliver_append:
  "deliver cb (xs @ ys) s =
     (case ended_with (deliver cb xs s) of
        Some out \<Rightarrow> deliver cb xs s
      | None \<Rightarrow> (deliver cb ys (state_after (deliver cb xs s)))
                  \<lparr>given := xs @ given (deliver cb ys (state_after (deliver cb xs s)))\<rparr>)"
proof (induction xs arbitrary: s)
  case Nil
  then show ?case by simp
next
  case (Cons d xs)
  show ?case
  proof (cases "cb d s")
    case (Throws s')
    then show ?thesis
      by (cases "ended_with (deliver cb xs s')") (simp_all add: Cons.IH Let_def)
  next
    case (Returns s' d')
    then show ?thesis
      by (cases "ended_with (deliver cb xs s')") (simp_all add: Cons.IH Let_def)
  qed
qed

lemma calls_console_warn [simp]: "calls (console_warn l w) = calls w"
  by (simp add: console_warn_def)

lemma caller_console_warn [simp]: "caller (console_warn l w) = caller w"
  by (simp add: console_warn_def)

text \<open>One line that carries an event, against the delivery of that event.\<close>

lemma process_line_deliver:
  assumes "event_of parse l = Some d"
  shows "\<exists>w'. process_line parse (Some cb) l w =
                 (case ended_with (deliver cb [d] (caller w)) of
                    None \<Rightarrow> Continue w' | Some out \<Rightarrow> Return out w')
               \<and> calls w' = calls w @ [d]
               \<and> caller w' = state_after (deliver cb [d] (caller w))"
proof (cases "cb d (caller w)")
  case (Throws s')
  then show ?thesis by (simp add: process_line_event[OF assms])
next
  case (Returns s' d')
  then show ?thesis
    by (cases "left_by d d' = JNull") (auto simp: process_line_event[OF assms])
qed

lemma process_line_other:
  assumes "event_of parse l = None"
  shows "\<exists>w'. process_line parse cb l w = Continue w' \<and> calls w' = calls w \<and> caller w' = caller w"
  using assms by (simp add: process_line_none)

lemma map_filter_Cons_None:
  "f x = None \<Longrightarrow> List.map_filter f (x # xs) = List.map_filter f xs"
  by (simp add: List.map_filter_simps)

lemma map_filter_Cons_Some:
  "f x = Some y \<Longrightarrow> List.map_filter f (x # xs) = [y] @ List.map_filter f xs"
  by (simp add: List.map_filter_simps)

lemma process_lines_deliver:
  "\<exists>w'. process_lines parse (Some cb) ls w =
           (case ended_with (deliver cb (List.map_filter (event_of parse) ls) (caller w)) of
              None \<Rightarrow> Continue w' | Some out \<Rightarrow> Return out w')
         \<and> calls w' = calls w @ given (deliver cb (List.map_filter (event_of parse) ls) (caller w))
         \<and> caller w' = state_after (deliver cb (List.map_filter (event_of parse) ls) (caller w))"
proof (induction ls arbitrary: w)
  case Nil
  then show ?case by (simp add: List.map_filter_simps)
next
  case (Cons l ls)
  let ?E = "List.map_filter (event_of parse) ls"
  show ?case
  proof (cases "event_of parse l")
    case None
    from process_line_other[OF None, of "Some cb" w]
    obtain w1 where w1: "process_line parse (Some cb) l w = Continue w1" "calls w1 = calls w"
      "caller w1 = caller w" by blast
    from Cons.IH[of w1] w1 show ?thesis
      by (simp add: None)
  next
    case (Some d)
    let ?D = "deliver cb [d] (caller w)"
    from process_line_deliver[OF Some, of cb w]
    obtain w1 where w1: "process_line parse (Some cb) l w =
          (case ended_with ?D of None \<Rightarrow> Continue w1 | Some out \<Rightarrow> Return out w1)"
        "calls w1 = calls w @ [d]" "caller w1 = state_after ?D" by blast
    have E: "List.map_filter (event_of parse) (l # ls) = [d] @ ?E"
      by (rule map_filter_Cons_Some[where f = "event_of parse" and x = l, OF Some])
    show ?thesis
    proof (cases "ended_with ?D")
      case (Some out)
      with w1 show ?thesis
        unfolding E deliver_append
        by (cases "cb d (caller w)") (auto split: if_splits)
    next
      case None
      from Cons.IH[of w1] obtain w2 where w2: "process_lines parse (Some cb) ls w1 =
            (case ended_with (deliver cb ?E (caller w1)) of
               None \<Rightarrow> Continue w2 | Some out \<Rightarrow> Return out w2)"
          "calls w2 = calls w1 @ given (deliver cb ?E (caller w1))"
          "caller w2 = state_after (deliver cb ?E (caller w1))" by blast
      have g: "given ?D = [d]"
        using deliver_all[OF None] .
      from w1 w2 None g show ?thesis
        unfolding E deliver_append by (auto simp del: deliver.simps)
    qed
  qed
qed

lemma events_between_step:
  "i < m \<Longrightarrow> events_between parse rd i m = read_events parse (rd i) @ events_between parse rd (Suc i) m"
  by (simp add: events_between_def upt_conv_Cons)

lemma events_between_empty [simp]: "events_between parse rd i i = []"
  by (simp add: events_between_def)

lemma read_loop_deliver:
  assumes "\<forall>k<n. \<exists>c. rd (reads w + k) = Value c"
      and "rd (reads w + n) = Done \<or> (\<exists>e. rd (reads w + n) = Rejected e)
           \<or> ended_with (deliver cb (events_between parse rd (reads w) (reads w + n)) (caller w)) \<noteq> None"
  shows "\<exists>r w'. read_loop parse (Some cb) rd w = Some (r, w')
           \<and> calls w' = calls w @ given (deliver cb (events_between parse rd (reads w) (reads w + n)) (caller w))
           \<and> caller w' = state_after (deliver cb (events_between parse rd (reads w) (reads w + n)) (caller w))
           \<and> r = (case ended_with (deliver cb (events_between parse rd (reads w) (reads w + n)) (caller w)) of
                    Some out \<Rightarrow> Inr (Some out)
                  | None \<Rightarrow> (case rd (reads w + n) of Rejected e \<Rightarrow> Inl e | _ \<Rightarrow> Inr None))"
  using assms
proof (induction n arbitrary: w)
  case 0
  then have "rd (reads w) = Done \<or> (\<exists>e. rd (reads w) = Rejected e)" by simp
  then show ?case
    by (subst read_loop.simps) auto
next
  case (Suc n)
  let ?i = "reads w"
  let ?w = "w\<lparr>reads := Suc (reads w)\<rparr>"
  from Suc.prems(1) obtain c where c: "rd ?i = Value c" by force
  let ?E = "List.map_filter (event_of parse) (split newline c)"
  let ?R = "events_between parse rd (Suc ?i) (?i + Suc n)"
  let ?DE = "deliver cb ?E (caller w)"
  have EB: "events_between parse rd ?i (?i + Suc n) = ?E @ ?R"
    by (simp add: events_between_step c read_events_def chunk_events_def)
  from process_lines_deliver[of parse cb "split newline c" ?w]
  obtain w1 where w1: "process_lines parse (Some cb) (split newline c) ?w =
        (case ended_with ?DE of None \<Rightarrow> Continue w1 | Some out \<Rightarrow> Return out w1)"
      "calls w1 = calls w @ given ?DE" "caller w1 = state_after ?DE"
    by auto
  show ?case
  proof (cases "ended_with ?DE")
    case (Some out)
    with w1 c have "read_loop parse (Some cb) rd w = Some (Inr (Some out), w1)"
      by (subst read_loop.simps) simp
    with w1 Some show ?thesis
      unfolding EB deliver_append by simp
  next
    case None
    with w1 have cont: "process_lines parse (Some cb) (split newline c) ?w = Continue w1" by simp
    with process_lines_frame[of parse "Some cb" "split newline c" ?w w1]
    have r1: "reads w1 = Suc ?i" by simp
    from cont c have step: "read_loop parse (Some cb) rd w = read_loop parse (Some cb) rd w1"
      by (subst read_loop.simps) simp
    have D: "deliver cb (?E @ ?R) (caller w)
             = (deliver cb ?R (caller w1))\<lparr>given := ?E @ given (deliver cb ?R (caller w1))\<rparr>"
      unfolding deliver_append by (simp add: None w1(3))
    have v: "\<forall>k<n. \<exists>c. rd (reads w1 + k) = Value c"
    proof (intro allI impI)
      fix k assume "k < n"
      then have "Suc k < Suc n" by simp
      with Suc.prems(1) have "\<exists>c. rd (?i + Suc k) = Value c" by blast
      then show "\<exists>c. rd (reads w1 + k) = Value c" by (simp add: r1)
    qed
    have idx: "reads w1 + n = ?i + Suc n" by (simp add: r1)
    have f: "rd (reads w1 + n) = Done \<or> (\<exists>e. rd (reads w1 + n) = Rejected e)
           \<or> ended_with (deliver cb (events_between parse rd (reads w1) (reads w1 + n)) (caller w1)) \<noteq> None"
      using Suc.prems(2) unfolding idx EB D by (simp add: r1)
    from Suc.IH[OF v f]
    obtain r w' where ih: "read_loop parse (Some cb) rd w1 = Some (r, w')"
        "calls w' = calls w1 @ given (deliver cb (events_between parse rd (reads w1) (reads w1 + n)) (caller w1))"
        "caller w' = state_after (deliver cb (events_between parse rd (reads w1) (reads w1 + n)) (caller w1))"
        "r = (case ended_with (deliver cb (events_between parse rd (reads w1) (reads w1 + n)) (caller w1)) of
                    Some out \<Rightarrow> Inr (Some out)
                  | None \<Rightarrow> (case rd (reads w1 + n) of Rejected e \<Rightarrow> Inl e | _ \<Rightarrow> Inr None))"
      by blast
    have g: "given ?DE = ?E" using deliver_all[OF None] .
    from ih step show ?thesis
      unfolding EB D idx by (simp add: r1 w1(2) g)
  qed
qed

lemma sorted_wrt_prefix: "prefix xs ys \<Longrightarrow> sorted_wrt P ys \<Longrightarrow> sorted_wrt P xs"
  by (auto simp: prefix_def sorted_wrt_append)

subsection \<open>The settings page on a failed run\<close>

lemma returns_keeping_page: "returns_keeping (Some page_onProgress) d"
  by (simp add: page_onProgress_def)

lemma silent_page: "quiet parse l \<Longrightarrow> silent parse (Some page_onProgress) l"
  by (cases "event_of parse l")
     (auto simp: quiet_def silent_def page_onProgress_def split: option.splits)

lemma caller_invoke_page:
  "caller (invoked_world (invoke (Some page_onProgress) d v))
     = caller v @ [SetRebuildProgress (FromEvent d)]"
  by (simp add: page_onProgress_def)

lemma failed_terminal: "field ''status'' e = Some (JStr ''failed'') \<Longrightarrow> terminal e"
  by (simp add: terminal_def)

text \<open>
  What the handler of the settings page does when the stream's first terminal event has
  status \<^verbatim>\<open>failed\<close>: the toast carries the event's \<^verbatim>\<open>error\<close> property when that is
  truthy and prints as a non-empty text, and a generic text when the event has none.
\<close>

lemma settings_page_on_failed_event:
  assumes "net (stream_request baseURL token None) = Inr resp" "ok resp" "body resp = Some rd"
      and "\<forall>k<n. \<exists>c. rd k = Value c \<and> (\<forall>l\<in>set (split newline c). quiet parse l)"
      and "rd n = Value chunk" "split newline chunk = before @ line # after"
      and "\<forall>l\<in>set before. quiet parse l"
      and "event_of parse line = Some e" "field ''status'' e = Some (JStr ''failed'')"
  shows "returned (rebuildVectorStoreWithProgress parse net baseURL token None
            (Some page_onProgress) w)
           = Some (Inr \<lparr>success = False, data = e\<rparr>)
         \<and> (\<exists>acts. page_actions (SettingsPage_rebuildVectorStore parse net baseURL token
                        num_str type_error_text stats w)
               = Some (acts @ [SetRebuildProgress (FromEvent e),
                               SetRebuildProgress Failed,
                               ShowToast (failure_toast (failure_error num_str type_error_text e)),
                               SetIsLoading False]))
         \<and> (field ''error'' e = None \<longrightarrow>
              description (failure_toast (failure_error num_str type_error_text e)) = ''Rebuild failed'')
         \<and> (field ''error'' e = Some (JStr m) \<and> m \<noteq> [] \<longrightarrow>
              description (failure_toast (failure_error num_str type_error_text e)) = m)"
proof -
  let ?cb = "Some page_onProgress"
  from assms(4) have a: "\<forall>k<n. \<exists>c. rd k = Value c \<and> (\<forall>l\<in>set (split newline c). silent parse ?cb l)"
    by (meson silent_page)
  from assms(7) have b: "\<forall>l\<in>set before. silent parse ?cb l"
    by (meson silent_page)
  have t: "terminal e" by (rule failed_terminal) (rule assms(9))
  have ns: "\<not> (field ''status'' e = Some (JStr ''completed''))" by (simp add: assms(9))
  have run: "\<exists>w' (v :: ui_action list world). rebuildVectorStoreWithProgress parse net baseURL token None ?cb u
                 = Some (Inr \<lparr>success = False, data = e\<rparr>, w')
               \<and> caller w' = caller v @ [SetRebuildProgress (FromEvent e)]" for u
  proof -
    from rebuild_terminal[where net = net and resp = resp and w = u,
        OF assms(1-3) a assms(5,6) b assms(8) t returns_keeping_page]
    obtain w' v where "rebuildVectorStoreWithProgress parse net baseURL token None ?cb u
        = Some (Inr \<lparr>success = (field ''status'' e = Some (JStr ''completed'')), data = e\<rparr>, w')"
        "w' = (invoked_world (invoke ?cb e v))\<lparr>locked := False\<rparr>" by blast
    then have "rebuildVectorStoreWithProgress parse net baseURL token None ?cb u
                 = Some (Inr \<lparr>success = False, data = e\<rparr>, w')
               \<and> caller w' = caller v @ [SetRebuildProgress (FromEvent e)]"
      using ns by (simp add: caller_invoke_page del: invoke.simps)
    then show ?thesis by blast
  qed
  from run[of w] have c1: "returned (rebuildVectorStoreWithProgress parse net baseURL token None ?cb w)
           = Some (Inr \<lparr>success = False, data = e\<rparr>)"
    by (auto simp: returned_def)
  let ?w0 = "w\<lparr>caller := caller w @ [SetIsLoading True, SetRebuildProgress Starting]\<rparr>"
  from run[of ?w0] obtain w1 and v :: "ui_action list world" where w1:
      "rebuildVectorStoreWithProgress parse net baseURL token None ?cb ?w0
         = Some (Inr \<lparr>success = False, data = e\<rparr>, w1)"
      "caller w1 = caller v @ [SetRebuildProgress (FromEvent e)]" by blast
  have c2: "page_actions (SettingsPage_rebuildVectorStore parse net baseURL token num_str type_error_text stats w)
      = Some (caller v @ [SetRebuildProgress (FromEvent e), SetRebuildProgress Failed,
                ShowToast (failure_toast (failure_error num_str type_error_text e)),
                SetIsLoading False])"
    by (simp add: SettingsPage_rebuildVectorStore_def page_actions_def w1 Let_def)
  have c3: "field ''error'' e = None \<longrightarrow>
              description (failure_toast (failure_error num_str type_error_text e)) = ''Rebuild failed''"
    by (simp add: failure_error_def failure_toast_def)
  have c4: "field ''error'' e = Some (JStr m) \<and> m \<noteq> [] \<longrightarrow>
              description (failure_toast (failure_error num_str type_error_text e)) = m"
    by (simp add: failure_error_def failure_toast_def)
  from c1 c2 c3 c4 show ?thesis by blast
qed

section \<open>The claims\<close>

text \<open>
  C1, as stated, fails for a callback that throws on the terminal event: the function
  has parsed the first event with status \<^verbatim>\<open>failed\<close>, and yet it reads on to the end of
  the stream and returns the fallback success. It fails as well for a callback that
  writes the status of the event it is given: the outcome carries the status the
  callback left, not the one that was parsed.
\<close>

theorem C1_terminal_event_counterexample:
  "chunk_events sample_parse (frame text_processing) = [ev_processing]
   \<and> \<not> terminal ev_processing
   \<and> chunk_events sample_parse (frame text_failed) = [ev_failed]
   \<and> terminal ev_failed
   \<and> field ''status'' ev_failed = Some (JStr ''failed'')
   \<and> returned (rebuildVectorStoreWithProgress sample_parse
         (streaming [frame text_processing, frame text_failed]) [] None None
         (Some throwing) (initial []))
       = Some (Inr \<lparr>success = True, data = JObj [(''status'', JStr ''completed'')]\<rparr>)
   \<and> final reads (rebuildVectorStoreWithProgress sample_parse
         (streaming [frame text_processing, frame text_failed]) [] None None
         (Some throwing) (initial []))
       = Some 3
   \<and> final caller (rebuildVectorStoreWithProgress sample_parse
         (streaming [frame text_processing, frame text_failed]) [] None None
         (Some throwing) (initial []))
       = Some [ev_processing, ev_failed]
   \<and> returned (rebuildVectorStoreWithProgress sample_parse
         (streaming [frame text_failed]) [] None None
         (Some completing) (initial []))
       = Some (Inr \<lparr>success = True,
                    data = JObj [(''status'', JStr ''completed''), (''message'', JStr ''X'')]\<rparr>)"
  by code_simp

text \<open>
  C1, amended. At the first line, in stream order, whose event has status
  \<^verbatim>\<open>completed\<close> or \<^verbatim>\<open>failed\<close>, the function returns, provided the callback (if there is
  one) returns normally on that event and leaves it as it was, and has given no earlier
  event a terminal status: \<^verbatim>\<open>success\<close> says whether the status is \<^verbatim>\<open>completed\<close>,
  \<^verbatim>\<open>data\<close> is that event, and the chunk of the line is the last one read. In particular
  a \<^verbatim>\<open>completed\<close> event gives \<^verbatim>\<open>success == true\<close>.
\<close>

theorem C1_terminal_event:
  assumes "net (stream_request baseURL token fs) = Inr resp" "ok resp" "body resp = Some rd"
      and "\<forall>k<n. \<exists>c. rd k = Value c
                \<and> (\<forall>l\<in>set (split newline c). quiet parse l \<and> silent parse onProgress l)"
      and "rd n = Value chunk" "split newline chunk = before @ line # after"
      and "\<forall>l\<in>set before. quiet parse l \<and> silent parse onProgress l"
      and "event_of parse line = Some e" "terminal e"
      and "returns_keeping onProgress e"
  shows "returned (rebuildVectorStoreWithProgress parse net baseURL token fs onProgress w)
           = Some (Inr \<lparr>success = (field ''status'' e = Some (JStr ''completed'')), data = e\<rparr>)
         \<and> final reads (rebuildVectorStoreWithProgress parse net baseURL token fs onProgress w)
           = Some (Suc n)
         \<and> (field ''status'' e = Some (JStr ''completed'') \<longrightarrow>
              returned (rebuildVectorStoreWithProgress parse net baseURL token fs onProgress w)
                = Some (Inr \<lparr>success = True, data = e\<rparr>))"
proof -
  from assms(4) have a: "\<forall>k<n. \<exists>c. rd k = Value c \<and> (\<forall>l\<in>set (split newline c). silent parse onProgress l)"
    by blast
  from assms(7) have b: "\<forall>l\<in>set before. silent parse onProgress l"
    by blast
  from rebuild_terminal[where net = net and resp = resp, OF assms(1-3) a assms(5,6) b assms(8-10)]
  obtain w' where "rebuildVectorStoreWithProgress parse net baseURL token fs onProgress w
      = Some (Inr \<lparr>success = (field ''status'' e = Some (JStr ''completed'')), data = e\<rparr>, w')"
      "reads w' = Suc n" by blast
  then show ?thesis
    by (simp add: returned_def final_def)
qed

theorem C1_terminal_event_witness:
  "returned (rebuildVectorStoreWithProgress sample_parse
       (streaming [frame text_processing, frame text_completed, frame text_failed]) []
       None None (Some recording) (initial []))
     = Some (Inr \<lparr>success = True, data = ev_completed\<rparr>)
   \<and> final reads (rebuildVectorStoreWithProgress sample_parse
       (streaming [frame text_processing, frame text_completed, frame text_failed]) []
       None None (Some recording) (initial []))
     = Some 2"
proof -
  let ?cs = "[frame text_processing, frame text_completed, frame text_failed]"
  have q: "\<forall>k<1. \<exists>c. reader_of ?cs k = Value c
             \<and> (\<forall>l\<in>set (split newline c). quiet sample_parse l \<and> silent sample_parse (Some recording) l)"
    using quiet_frame_processing by (simp add: reader_of_def silent_recording)
  have c: "reader_of ?cs 1 = Value (frame text_completed)"
    by (simp add: reader_of_def)
  have s: "split newline (frame text_completed) = [] @ line_of text_completed # [[], []]"
    by (simp add: lines_frame_completed)
  have b: "\<forall>l\<in>set []. quiet sample_parse l \<and> silent sample_parse (Some recording) l" by simp
  have st: "field ''status'' ev_completed = Some (JStr ''completed'')"
    by (simp add: ev_completed_def)
  from C1_terminal_event[where net = "streaming ?cs" and baseURL = "[]" and token = None
      and fs = None and parse = sample_parse and onProgress = "Some recording" and w = "initial []",
      OF streaming_simps q c s b sample_events(2) sample_terminal(2) returns_keeping_recording]
  show ?thesis by (simp add: st)
qed

text \<open>
  C2. Removing one \<^verbatim>\<open>data: \<close> line that does not parse from a chunk of the stream
  changes nothing but the console output: the run returns or throws the same, with the
  same callback invocations, the same caller's state and the same number of reads, or
  neither run ends.
\<close>

theorem C2_malformed_line_skipped:
  assumes "net (stream_request baseURL token fs) = Inr resp" "body resp = Some rd"
      and "net' (stream_request baseURL token fs) = Inr (resp\<lparr>body := Some rd'\<rparr>)"
      and "rd n = Value (join newline (before @ bad # after))"
      and "rd' n = Value (join newline (before @ after))"
      and "\<forall>i. i \<noteq> n \<longrightarrow> rd' i = rd i"
      and "startsWith bad ''data: ''" "parse (slice 6 bad) = None"
      and "\<forall>l\<in>set (before @ bad # after). newline \<notin> set l"
  shows "observe (rebuildVectorStoreWithProgress parse net baseURL token fs onProgress w)
       = observe (rebuildVectorStoreWithProgress parse net' baseURL token fs onProgress w)"
proof -
  from assms(8) have bad: "\<not> is_event parse bad"
    by (simp add: is_event_def event_of_def)
  from assms(9) have nl: "\<forall>l\<in>set (before @ after). newline \<notin> set l" by auto
  have "filter (is_event parse) (split newline (join newline (before @ bad # after)))
        = filter (is_event parse) (before @ bad # after)"
    by (rule filter_events_split_join) (rule assms(9))
  also have "\<dots> = filter (is_event parse) (before @ after)"
    using bad by simp
  also have "\<dots> = filter (is_event parse) (split newline (join newline (before @ after)))"
    by (rule filter_events_split_join[symmetric]) (rule nl)
  finally have at_n: "similar_read parse (rd n) (rd' n)"
    by (simp add: assms(4,5) similar_read_def)
  have "\<forall>i. similar_read parse (rd i) (rd' i)"
  proof
    fix i
    show "similar_read parse (rd i) (rd' i)"
    proof (cases "i = n")
      case True
      with at_n show ?thesis by simp
    next
      case False
      with assms(6) show ?thesis by (simp add: similar_read_refl)
    qed
  qed
  with assms(1-3) show ?thesis by (rule rebuild_similar)
qed

theorem C2_malformed_line_skipped_witness:
  "observe (rebuildVectorStoreWithProgress sample_parse (streaming [chunk_with_bad]) []
       None None (Some recording) (initial []))
   = observe (rebuildVectorStoreWithProgress sample_parse (streaming [chunk_without_bad]) []
       None None (Some recording) (initial []))
   \<and> returned (rebuildVectorStoreWithProgress sample_parse (streaming [chunk_with_bad]) []
       None None (Some recording) (initial []))
     = Some (Inr \<lparr>success = False, data = ev_failed\<rparr>)"
proof -
  let ?resp = "\<lparr>status_code = 200, statusText = ''OK'', body = Some (reader_of [chunk_with_bad])\<rparr>"
  have n1: "streaming [chunk_with_bad] (stream_request [] None None) = Inr ?resp"
    by (simp add: streaming_def)
  have n2: "streaming [chunk_without_bad] (stream_request [] None None)
            = Inr (?resp\<lparr>body := Some (reader_of [chunk_without_bad])\<rparr>)"
    by (simp add: streaming_def)
  have b: "body ?resp = Some (reader_of [chunk_with_bad])" by simp
  have r1: "reader_of [chunk_with_bad] 0
            = Value (join newline ([line_of text_processing] @ ''data: {not json'' # [line_of text_failed, [], []]))"
    by (simp add: reader_of_def chunk_with_bad_def)
  have r2: "reader_of [chunk_without_bad] 0
            = Value (join newline ([line_of text_processing] @ [line_of text_failed, [], []]))"
    by (simp add: reader_of_def chunk_without_bad_def)
  have r3: "\<forall>i. i \<noteq> 0 \<longrightarrow> reader_of [chunk_without_bad] i = reader_of [chunk_with_bad] i"
    by (simp add: reader_of_def)
  have m1: "startsWith ''data: {not json'' ''data: ''" by code_simp
  have m2: "sample_parse (slice 6 ''data: {not json'') = None" by code_simp
  have nl: "\<forall>l\<in>set ([line_of text_processing] @ ''data: {not json'' # [line_of text_failed, [], []]). newline \<notin> set l"
    by code_simp
  have v: "returned (rebuildVectorStoreWithProgress sample_parse (streaming [chunk_with_bad]) []
       None None (Some recording) (initial []))
     = Some (Inr \<lparr>success = False, data = ev_failed\<rparr>)"
    by code_simp
  from C2_malformed_line_skipped[where net = "streaming [chunk_with_bad]"
      and net' = "streaming [chunk_without_bad]" and baseURL = "[]" and token = None and fs = None
      and parse = sample_parse and onProgress = "Some recording" and w = "initial []",
      OF n1 b n2 r1 r2 r3 m1 m2 nl] v
  show ?thesis by (rule conjI)
qed

text \<open>
  C3. When the answer to the initiating request has a status outside 200-299, or has
  no body, the operation rejects with an error, and the progress callback has not been
  invoked: the log of its invocations and the caller's state are as before.
\<close>

theorem C3_transport_error:
  assumes "net (stream_request baseURL token fs) = Inr resp"
      and "status_code resp < 200 \<or> 299 < status_code resp \<or> body resp = None"
  shows "\<exists>e w'. rebuildVectorStoreWithProgress parse net baseURL token fs onProgress w = Some (Inl e, w')
           \<and> e = (if ok resp then Error ''No response body''
                   else Error (''Rebuild failed: '' @ statusText resp))
           \<and> calls w' = calls w \<and> caller w' = caller w \<and> reads w' = reads w"
  using assms unfolding rebuildVectorStoreWithProgress_def fetch_def ok_def
  by auto

theorem C3_transport_error_witness:
  "returned (rebuildVectorStoreWithProgress sample_parse server_error [] None None (Some recording) (initial []))
     = Some (Inl (Error ''Rebuild failed: Internal Server Error''))
   \<and> final calls (rebuildVectorStoreWithProgress sample_parse server_error [] None None (Some recording) (initial []))
     = Some []"
proof -
  have a: "server_error (stream_request [] None None)
           = Inr \<lparr>status_code = 500, statusText = ''Internal Server Error'', body = Some (reader_of [])\<rparr>"
    by (simp add: server_error_def)
  have b: "status_code \<lparr>status_code = 500, statusText = ''Internal Server Error'', body = Some (reader_of [])\<rparr> < 200
     \<or> 299 < status_code \<lparr>status_code = 500, statusText = ''Internal Server Error'', body = Some (reader_of [])\<rparr>
     \<or> body \<lparr>status_code = 500, statusText = ''Internal Server Error'', body = Some (reader_of [])\<rparr> = None"
    by simp
  from C3_transport_error[where net = server_error and baseURL = "[]" and token = None and fs = None
      and parse = sample_parse and onProgress = "Some recording" and w = "initial []", OF a b]
  show ?thesis by (auto simp: returned_def final_def ok_def initial_def)
qed

text \<open>
  C4, as stated, fails for a callback that writes the status of the event it is given:
  on a stream whose only event has status \<^verbatim>\<open>processing\<close>, a callback that sets the status
  to \<^verbatim>\<open>completed\<close> makes the function return at the first chunk, before the end of the
  stream, with the event the callback left as data and not the synthesized one.
\<close>

theorem C4_stream_end_fallback_counterexample:
  "chunk_events sample_parse (frame text_processing) = [ev_processing]
   \<and> \<not> terminal ev_processing
   \<and> reader_of [frame text_processing] 1 = Done
   \<and> returned (rebuildVectorStoreWithProgress sample_parse (streaming [frame text_processing]) []
         None None (Some completing) (initial []))
       = Some (Inr \<lparr>success = True,
                    data = JObj [(''status'', JStr ''completed''), (''progress'', JNum 40)]\<rparr>)
   \<and> final reads (rebuildVectorStoreWithProgress sample_parse (streaming [frame text_processing]) []
         None None (Some completing) (initial []))
       = Some 1"
  by code_simp

text \<open>
  C4, amended. When the reader reports the end after chunks none of whose lines carries
  an event with status \<^verbatim>\<open>completed\<close> or \<^verbatim>\<open>failed\<close>, and the callback (if there is one)
  has given none of the events such a status, the function returns the synthesized
  outcome \<^verbatim>\<open>{success: true, data: {status: 'completed'}}\<close>; it throws nothing.
\<close>

theorem C4_stream_end_fallback:
  assumes "net (stream_request baseURL token fs) = Inr resp" "ok resp" "body resp = Some rd"
      and "\<forall>k<n. \<exists>c. rd k = Value c
                \<and> (\<forall>l\<in>set (split newline c). quiet parse l \<and> silent parse onProgress l)"
      and "rd n = Done"
  shows "returned (rebuildVectorStoreWithProgress parse net baseURL token fs onProgress w)
           = Some (Inr \<lparr>success = True, data = JObj [(''status'', JStr ''completed'')]\<rparr>)
         \<and> final reads (rebuildVectorStoreWithProgress parse net baseURL token fs onProgress w)
           = Some (Suc n)"
proof -
  from assms(4) have "\<forall>k<n. \<exists>c. rd k = Value c \<and> (\<forall>l\<in>set (split newline c). silent parse onProgress l)"
    by blast
  from rebuild_done[where net = net and resp = resp, OF assms(1-3) this assms(5)]
  obtain w' where "rebuildVectorStoreWithProgress parse net baseURL token fs onProgress w
      = Some (Inr fallback_outcome, w')" "reads w' = Suc n" by blast
  then show ?thesis
    by (simp add: returned_def final_def fallback_outcome_def)
qed

theorem C4_stream_end_fallback_witness:
  "returned (rebuildVectorStoreWithProgress sample_parse (streaming [frame text_processing]) []
       None None (Some recording) (initial []))
     = Some (Inr \<lparr>success = True, data = JObj [(''status'', JStr ''completed'')]\<rparr>)
   \<and> final reads (rebuildVectorStoreWithProgress sample_parse (streaming [frame text_processing]) []
       None None (Some recording) (initial []))
     = Some 2"
proof -
  have q: "\<forall>k<1. \<exists>c. reader_of [frame text_processing] k = Value c
                \<and> (\<forall>l\<in>set (split newline c).
                      quiet sample_parse l \<and> silent sample_parse (Some recording) l)"
    using quiet_frame_processing by (simp add: reader_of_def silent_recording)
  have d: "reader_of [frame text_processing] 1 = Done"
    by (simp add: reader_of_def)
  from C4_stream_end_fallback[where net = "streaming [frame text_processing]"
      and baseURL = "[]" and token = None and fs = None and parse = sample_parse
      and onProgress = "Some recording" and w = "initial []", OF streaming_simps q d]
  show ?thesis by simp
qed

text \<open>
  C5. On the stream that ends in \<^verbatim>\<open>{status: 'failed', message: 'X'}\<close> the client returns
  \<^verbatim>\<open>success == false\<close> with the event as data, and the event reaches the page through
  the progress callback; but the toast of the page reads the property \<^verbatim>\<open>error\<close>, which
  the event does not have, and shows the generic text although the message is there.
\<close>

theorem C5_failed_event_toast:
  "field ''message'' ev_failed = Some (JStr ''X'')
   \<and> returned (rebuildVectorStoreWithProgress sample_parse
         (streaming [frame text_processing, frame text_failed]) [] None None
         (Some page_onProgress) (initial []))
     = Some (Inr \<lparr>success = False, data = ev_failed\<rparr>)
   \<and> page_actions (SettingsPage_rebuildVectorStore sample_parse
         (streaming [frame text_processing, frame text_failed]) [] None
         integral_num_str v8_type_error_text (Inr (JObj [])) (initial []))
     = Some [SetIsLoading True,
             SetRebuildProgress Starting,
             SetRebuildProgress (FromEvent ev_processing),
             SetRebuildProgress (FromEvent ev_failed),
             SetRebuildProgress Failed,
             ShowToast \<lparr>title = ''Error'', description = ''Rebuild failed'',
                        variant = Some ''destructive''\<rparr>,
             SetIsLoading False]"
  by code_simp

text \<open>
  C6. Every run on a stream that ends, fails, or holds an event that ends the run does
  end, and the callback has then been invoked on the events of the chunks read, in
  stream order, each once, with no reordering, no duplicate and none left out, up to
  the event that ended the run: the state the callback leaves to its caller is the one
  that delivering these events in order leaves. So non-decreasing progress values in the
  stream are seen as non-decreasing progress values by the callback.
\<close>

theorem C6_callback_order:
  assumes "net (stream_request baseURL token fs) = Inr resp" "ok resp" "body resp = Some rd"
      and "\<forall>k<n. \<exists>c. rd k = Value c"
      and "rd n = Done \<or> (\<exists>e. rd n = Rejected e)
           \<or> ended_with (deliver cb (events_between parse rd 0 n) (caller w)) \<noteq> None"
  shows "\<exists>r w'. rebuildVectorStoreWithProgress parse net baseURL token fs (Some cb) w = Some (r, w')
           \<and> calls w' = calls w @ given (deliver cb (events_between parse rd 0 n) (caller w))
           \<and> caller w' = state_after (deliver cb (events_between parse rd 0 n) (caller w))
           \<and> prefix (given (deliver cb (events_between parse rd 0 n) (caller w)))
                (events_between parse rd 0 n)
           \<and> (ended_with (deliver cb (events_between parse rd 0 n) (caller w)) = None \<longrightarrow>
                given (deliver cb (events_between parse rd 0 n) (caller w))
                  = events_between parse rd 0 n)
           \<and> (sorted_wrt progress_le (events_between parse rd 0 n) \<longrightarrow>
                sorted_wrt progress_le (given (deliver cb (events_between parse rd 0 n) (caller w))))
           \<and> (case ended_with (deliver cb (events_between parse rd 0 n) (caller w)) of
                 Some out \<Rightarrow> r = Inr out
               | None \<Rightarrow> r = (case rd n of Rejected e \<Rightarrow> Inl e | _ \<Rightarrow> Inr fallback_outcome))"
proof -
  let ?w1 = "w\<lparr>requests := requests w @ [stream_request baseURL token fs], reads := 0, locked := True\<rparr>"
  let ?D = "deliver cb (events_between parse rd 0 n) (caller w)"
  have v: "\<forall>k<n. \<exists>c. rd (reads ?w1 + k) = Value c" using assms(4) by simp
  have f: "rd (reads ?w1 + n) = Done \<or> (\<exists>e. rd (reads ?w1 + n) = Rejected e)
           \<or> ended_with (deliver cb (events_between parse rd (reads ?w1) (reads ?w1 + n)) (caller ?w1)) \<noteq> None"
    using assms(5) by simp
  have idx: "reads ?w1 + n = n" "reads ?w1 = 0" "caller ?w1 = caller w" "calls ?w1 = calls w"
    "0 + n = n"
    by simp_all
  from read_loop_deliver[OF v f, unfolded idx]
  obtain r2 w2 where run: "read_loop parse (Some cb) rd ?w1 = Some (r2, w2)"
      and c: "calls w2 = calls w @ given ?D" "caller w2 = state_after ?D"
      and r2: "r2 = (case ended_with ?D of Some out \<Rightarrow> Inr (Some out)
                     | None \<Rightarrow> (case rd n of Rejected e \<Rightarrow> Inl e | _ \<Rightarrow> Inr None))"
    by blast
  let ?r = "case r2 of Inl e \<Rightarrow> Inl e | Inr (Some out) \<Rightarrow> Inr out | Inr None \<Rightarrow> Inr fallback_outcome"
  have whole: "rebuildVectorStoreWithProgress parse net baseURL token fs (Some cb) w
               = Some (?r, w2\<lparr>locked := False\<rparr>)"
    by (simp add: rebuild_streaming[where net = net and resp = resp, OF assms(1-3)] run)
  have res: "case ended_with ?D of
                 Some out \<Rightarrow> ?r = Inr out
               | None \<Rightarrow> ?r = (case rd n of Rejected e \<Rightarrow> Inl e | _ \<Rightarrow> Inr fallback_outcome)"
    unfolding r2 by (auto split: option.splits read_result.splits)
  have p: "prefix (given ?D) (events_between parse rd 0 n)" by (rule deliver_prefix)
  have a: "ended_with ?D = None \<longrightarrow> given ?D = events_between parse rd 0 n"
    by (blast intro: deliver_all)
  have s: "sorted_wrt progress_le (events_between parse rd 0 n) \<longrightarrow> sorted_wrt progress_le (given ?D)"
    using p by (blast intro: sorted_wrt_prefix)
  from whole c res p a s show ?thesis by simp
qed

theorem C6_callback_order_witness:
  "final caller (rebuildVectorStoreWithProgress sample_parse
       (streaming [frame text_processing, frame text_completed]) [] None None
       (Some recording) (initial []))
     = Some [ev_processing, ev_completed]
   \<and> returned (rebuildVectorStoreWithProgress sample_parse
       (streaming [frame text_processing, frame text_completed]) [] None None
       (Some recording) (initial []))
     = Some (Inr \<lparr>success = True, data = ev_completed\<rparr>)
   \<and> sorted_wrt progress_le [ev_processing, ev_completed]"
proof -
  let ?cs = "[frame text_processing, frame text_completed]"
  let ?run = "rebuildVectorStoreWithProgress sample_parse (streaming ?cs) [] None None
       (Some recording) (initial [])"
  have v: "\<forall>k<2. \<exists>c. reader_of ?cs k = Value c"
    by (simp add: reader_of_def)
  have ev: "events_between sample_parse (reader_of ?cs) 0 2 = [ev_processing, ev_completed]"
    by code_simp
  have dl: "deliver recording [ev_processing, ev_completed] []
            = \<lparr>given = [ev_processing, ev_completed],
               state_after = [ev_processing, ev_completed],
               ended_with = Some \<lparr>success = True, data = ev_completed\<rparr>\<rparr>"
    by code_simp
  have c: "caller (initial ([] :: json list)) = []"
    by (simp add: initial_def)
  have e: "reader_of ?cs 2 = Done \<or> (\<exists>e. reader_of ?cs 2 = Rejected e)
           \<or> ended_with (deliver recording (events_between sample_parse (reader_of ?cs) 0 2)
                 (caller (initial ([] :: json list)))) \<noteq> None"
    by (simp add: reader_of_def)
  have srt: "sorted_wrt progress_le [ev_processing, ev_completed]"
    by code_simp
  from C6_callback_order[where net = "streaming ?cs" and baseURL = "[]" and token = None
      and fs = None and parse = sample_parse and cb = recording and w = "initial []" and n = 2,
      OF streaming_simps v e]
  obtain r w' where run: "?run = Some (r, w')"
      and st: "caller w' = state_after (deliver recording
                 (events_between sample_parse (reader_of ?cs) 0 2) (caller (initial [])))"
      and out: "(case ended_with (deliver recording
                 (events_between sample_parse (reader_of ?cs) 0 2) (caller (initial []))) of
                   Some out \<Rightarrow> r = Inr out
                 | None \<Rightarrow> r = (case reader_of ?cs 2 of Rejected e \<Rightarrow> Inl e | _ \<Rightarrow> Inr fallback_outcome))"
    by blast
  from st have "caller w' = [ev_processing, ev_completed]"
    unfolding ev c dl by simp
  moreover from out have "r = Inr \<lparr>success = True, data = ev_completed\<rparr>"
    unfolding ev c dl by simp
  ultimately show ?thesis
    using run srt by (simp add: final_def returned_def)
qed

text \<open>
  C7. For the filters \<^verbatim>\<open>{user_filter: 'u1', batch_size: 50}\<close> both rebuild methods build
  the query string \<^verbatim>\<open>user_filter=u1&batch_size=50\<close>, with no \<^verbatim>\<open>document_filter\<close>
  key, and with no filters the URL carries no query string.
\<close>

theorem C7_query_string:
  "params_toString (rebuild_params (Some sample_filters)) = ''user_filter=u1&batch_size=50''
   \<and> ''document_filter'' \<notin> fst ` set (rebuild_params (Some sample_filters))
   \<and> rebuildVectorStore post (Some sample_filters)
       = post ''/rag/admin/vector/rebuild?user_filter=u1&batch_size=50''
   \<and> url (stream_request baseURL token (Some sample_filters))
       = baseURL @ ''/rag/admin/vector/rebuild/stream?user_filter=u1&batch_size=50''
   \<and> rebuildVectorStore post None = post ''/rag/admin/vector/rebuild''
   \<and> url (stream_request baseURL token None) = baseURL @ ''/rag/admin/vector/rebuild/stream''
   \<and> rebuildVectorStore post
         (Some \<lparr>user_filter = None, document_filter = None, batch_size = None\<rparr>)
       = post ''/rag/admin/vector/rebuild''
   \<and> url (stream_request baseURL token
         (Some \<lparr>user_filter = None, document_filter = None, batch_size = None\<rparr>))
       = baseURL @ ''/rag/admin/vector/rebuild/stream''"
proof -
  have nq: "query_suffix (rebuild_params None) = []"
    "query_suffix (rebuild_params
       (Some \<lparr>user_filter = None, document_filter = None, batch_size = None\<rparr>)) = []"
    by (simp_all add: no_filters query_suffix_def)
  have q: "query_suffix (rebuild_params (Some sample_filters)) = ''?user_filter=u1&batch_size=50''"
    by (simp add: query_suffix_def sample_query)
  have "''document_filter'' \<notin> fst ` set (rebuild_params (Some sample_filters))"
    by (simp add: sample_params)
  then show ?thesis
    by (simp add: sample_query rebuildVectorStore_def stream_request_def q nq Let_def)
qed

text \<open>
  C8. Every run that returns or throws has issued exactly one request, the one built
  from the filters, whatever the answer and whatever the stream held.
\<close>

theorem C8_single_request:
  assumes "rebuildVectorStoreWithProgress parse net baseURL token fs onProgress w = Some (r, w')"
  shows "requests w' = requests w @ [stream_request baseURL token fs]"
proof -
  let ?req = "stream_request baseURL token fs"
  let ?w1 = "w\<lparr>requests := requests w @ [?req]\<rparr>"
  show ?thesis
  proof (cases "net ?req")
    case (Inl e)
    with assms show ?thesis
      by (auto simp: rebuildVectorStoreWithProgress_def fetch_def)
  next
    case (Inr resp)
    show ?thesis
    proof (cases "ok resp \<and> body resp \<noteq> None")
      case False
      with Inr assms show ?thesis
        by (auto simp: rebuildVectorStoreWithProgress_def fetch_def split: if_splits)
    next
      case True
      then obtain rd where rd: "ok resp" "body resp = Some rd" by auto
      from assms rebuild_streaming[where net = net and baseURL = baseURL and token = token and fs = fs
          and parse = parse and cb = onProgress and w = w, OF Inr rd]
      obtain r2 w2 where "read_loop parse onProgress rd (?w1\<lparr>reads := 0, locked := True\<rparr>) = Some (r2, w2)"
        "w' = w2\<lparr>locked := False\<rparr>"
        by (auto split: option.splits)
      with read_loop_requests[OF this(1)] show ?thesis by simp
    qed
  qed
qed

theorem C8_single_request_witness:
  "final requests (rebuildVectorStoreWithProgress sample_parse
       (streaming [frame text_processing, frame text_failed]) [] None None (Some recording) (initial []))
   = Some [stream_request [] None None]"
proof -
  let ?run = "rebuildVectorStoreWithProgress sample_parse
       (streaming [frame text_processing, frame text_failed]) [] None None (Some recording) (initial [])"
  have "?run \<noteq> None" by code_simp
  then obtain r w' where run: "?run = Some (r, w')" by (cases ?run) auto
  from C8_single_request[OF run] run show ?thesis
    by (simp add: final_def initial_def)
qed

text \<open>
  C9. An exception of the callback is caught like a parse error: the line is logged
  and the loop goes on, as for a line that does not parse. When the callback throws on
  every terminal event of a stream that then ends, the terminal check is never reached
  and the function returns the fallback success outcome, also for a \<^verbatim>\<open>failed\<close> event.
\<close>

theorem C9_callback_throws:
  assumes "net (stream_request baseURL token fs) = Inr resp" "ok resp" "body resp = Some rd"
      and "\<forall>k<n. \<exists>c. rd k = Value c \<and> (\<forall>l\<in>set (split newline c). silent parse (Some cb) l)"
      and "rd n = Done"
  shows "returned (rebuildVectorStoreWithProgress parse net baseURL token fs (Some cb) w)
           = Some (Inr \<lparr>success = True, data = JObj [(''status'', JStr ''completed'')]\<rparr>)
         \<and> (event_of parse line = Some d \<and> cb d (caller w0) = Throws s \<longrightarrow>
              process_line parse (Some cb) line w0
                = Continue (console_warn line (w0\<lparr>calls := calls w0 @ [d], caller := s\<rparr>)))
         \<and> (startsWith line ''data: '' \<and> parse (slice 6 line) = None \<longrightarrow>
              process_line parse (Some cb) line w0 = Continue (console_warn line w0))"
proof -
  from rebuild_done[where net = net and resp = resp, OF assms]
  obtain w' where "rebuildVectorStoreWithProgress parse net baseURL token fs (Some cb) w
      = Some (Inr fallback_outcome, w')" by blast
  then have "returned (rebuildVectorStoreWithProgress parse net baseURL token fs (Some cb) w)
           = Some (Inr \<lparr>success = True, data = JObj [(''status'', JStr ''completed'')]\<rparr>)"
    by (simp add: returned_def fallback_outcome_def)
  moreover have "event_of parse line = Some d \<and> cb d (caller w0) = Throws s \<longrightarrow>
           process_line parse (Some cb) line w0
             = Continue (console_warn line (w0\<lparr>calls := calls w0 @ [d], caller := s\<rparr>))"
    by (simp add: process_line_event)
  moreover have "startsWith line ''data: '' \<and> parse (slice 6 line) = None \<longrightarrow>
           process_line parse (Some cb) line w0 = Continue (console_warn line w0)"
    by (simp add: process_line_def)
  ultimately show ?thesis by blast
qed

theorem C9_callback_throws_witness:
  "returned (rebuildVectorStoreWithProgress sample_parse
       (streaming [frame text_processing, frame text_failed]) [] None None (Some throwing) (initial []))
     = Some (Inr \<lparr>success = True, data = JObj [(''status'', JStr ''completed'')]\<rparr>)
   \<and> process_line sample_parse (Some throwing) (line_of text_failed) (initial [])
     = Continue (console_warn (line_of text_failed)
                  ((initial [])\<lparr>calls := [ev_failed], caller := [ev_failed]\<rparr>))
   \<and> process_line sample_parse (Some throwing) ''data: {not json'' (initial [])
     = Continue (console_warn ''data: {not json'' (initial []))"
proof -
  let ?cs = "[frame text_processing, frame text_failed]"
  have q: "\<forall>k<2. \<exists>c. reader_of ?cs k = Value c \<and> (\<forall>l\<in>set (split newline c). silent sample_parse (Some throwing) l)"
    by (simp add: reader_of_def silent_throwing)
  have d: "reader_of ?cs 2 = Done"
    by (simp add: reader_of_def)
  have t: "throwing ev_failed (caller (initial [])) = Throws [ev_failed]"
    by (simp add: throwing_def initial_def)
  have m: "startsWith ''data: {not json'' ''data: '' \<and> sample_parse (slice 6 ''data: {not json'') = None"
    by code_simp
  note A = C9_callback_throws[where net = "streaming ?cs" and baseURL = "[]" and token = None
      and fs = None and parse = sample_parse and cb = throwing and w = "initial []"
      and line = "line_of text_failed" and d = ev_failed and ?w0.0 = "initial []" and s = "[ev_failed]",
      OF streaming_simps q d]
  note B = C9_callback_throws[where net = "streaming ?cs" and baseURL = "[]" and token = None
      and fs = None and parse = sample_parse and cb = throwing and w = "initial []"
      and line = "''data: {not json''" and d = ev_failed and ?w0.0 = "initial []" and s = "[ev_failed]",
      OF streaming_simps q d]
  from A have "returned (rebuildVectorStoreWithProgress sample_parse
       (streaming ?cs) [] None None (Some throwing) (initial []))
     = Some (Inr \<lparr>success = True, data = JObj [(''status'', JStr ''completed'')]\<rparr>)"
    by (rule conjunct1)
  moreover have "process_line sample_parse (Some throwing) (line_of text_failed) (initial [])
     = Continue (console_warn (line_of text_failed)
                  ((initial [])\<lparr>calls := [ev_failed], caller := [ev_failed]\<rparr>))"
    using A[THEN conjunct2, THEN conjunct1, THEN mp, OF conjI[OF sample_events(3) t]]
    by (simp add: initial_def)
  moreover have "process_line sample_parse (Some throwing) ''data: {not json'' (initial [])
     = Continue (console_warn ''data: {not json'' (initial []))"
    by (rule B[THEN conjunct2, THEN conjunct2, THEN mp, OF m])
  ultimately show ?thesis by (intro conjI)
qed

text \<open>
  C10, as stated, fails: a line that ends in white space (a space, or the carriage
  return of a CRLF line end) and is cut before it arrives in two chunks, yet its first
  part parses; the event is given to the callback and is taken as the terminal event.
\<close>

theorem C10_split_line_counterexample:
  "event_of sample_parse (line_of text_failed @ '' '') = Some ev_failed
   \<and> event_of sample_parse (line_of text_failed) = Some ev_failed
   \<and> returned (rebuildVectorStoreWithProgress sample_parse
         (streaming [line_of text_failed, '' '' @ [newline, newline]])
         [] None None (Some recording) (initial []))
       = Some (Inr \<lparr>success = False, data = ev_failed\<rparr>)
   \<and> final calls (rebuildVectorStoreWithProgress sample_parse
         (streaming [line_of text_failed, '' '' @ [newline, newline]])
         [] None None (Some recording) (initial []))
       = Some [ev_failed]
   \<and> event_of sample_parse (line_of text_failed @ [carriage_return]) = Some ev_failed
   \<and> final calls (rebuildVectorStoreWithProgress sample_parse
         (streaming [line_of text_failed, [carriage_return, newline, carriage_return, newline]])
         [] None None (Some recording) (initial []))
       = Some [ev_failed]"
  by code_simp

text \<open>
  C10, amended. Lines are split within each chunk, and nothing is carried over to the
  next read. When a line arrives cut in two and neither part is a \<^verbatim>\<open>data: \<close> line
  that parses, the run is the run of the stream without the line, up to console
  output: the event is given to nobody. A cut inside the marker always leaves two
  such parts.
\<close>

theorem C10_split_line:
  assumes "net (stream_request baseURL token fs) = Inr resp" "body resp = Some rd"
      and "net' (stream_request baseURL token fs) = Inr (resp\<lparr>body := Some rd'\<rparr>)"
      and "rd n = Value (join newline (before @ [front]))"
      and "rd (Suc n) = Value (join newline (back # after))"
      and "rd' n = Value (join newline before)"
      and "rd' (Suc n) = Value (join newline after)"
      and "\<forall>i. i \<noteq> n \<and> i \<noteq> Suc n \<longrightarrow> rd' i = rd i"
      and "event_of parse front = None" "event_of parse back = None"
      and "\<forall>l\<in>set (before @ front # back # after). newline \<notin> set l"
  shows "observe (rebuildVectorStoreWithProgress parse net baseURL token fs onProgress w)
         = observe (rebuildVectorStoreWithProgress parse net' baseURL token fs onProgress w)
         \<and> (startsWith line ''data: '' \<and> 0 < k \<and> k < 6 \<longrightarrow>
              event_of parse (take k line) = None \<and> event_of parse (drop k line) = None)"
proof -
  from assms(9,10) have ne: "\<not> is_event parse front" "\<not> is_event parse back"
    by (simp_all add: is_event_def)
  have s0: "similar_read parse (rd n) (rd' n)"
    unfolding assms(4,6) using assms(11) ne by (intro similar_read_chunks) auto
  have s1: "similar_read parse (rd (Suc n)) (rd' (Suc n))"
    unfolding assms(5,7) using assms(11) ne by (intro similar_read_chunks) auto
  have "\<forall>i. similar_read parse (rd i) (rd' i)"
  proof
    fix i
    consider "i = n" | "i = Suc n" | "i \<noteq> n \<and> i \<noteq> Suc n" by blast
    then show "similar_read parse (rd i) (rd' i)"
    proof cases
      case 1 with s0 show ?thesis by simp
    next
      case 2 with s1 show ?thesis by simp
    next
      case 3 with assms(8) show ?thesis by (simp add: similar_read_refl)
    qed
  qed
  with assms(1-3)
  have "observe (rebuildVectorStoreWithProgress parse net baseURL token fs onProgress w)
         = observe (rebuildVectorStoreWithProgress parse net' baseURL token fs onProgress w)"
    by (rule rebuild_similar)
  moreover have "startsWith line ''data: '' \<and> 0 < k \<and> k < 6 \<longrightarrow>
              event_of parse (take k line) = None \<and> event_of parse (drop k line) = None"
    using marker_cut by blast
  ultimately show ?thesis by (rule conjI)
qed

theorem C10_split_line_witness:
  "cut_front @ cut_back = line_of text_failed
   \<and> event_of sample_parse (line_of text_failed) = Some ev_failed
   \<and> observe (rebuildVectorStoreWithProgress sample_parse (streaming chunks_cut) []
         None None (Some recording) (initial []))
     = observe (rebuildVectorStoreWithProgress sample_parse (streaming chunks_cut_absent) []
         None None (Some recording) (initial []))
   \<and> returned (rebuildVectorStoreWithProgress sample_parse (streaming chunks_cut) []
         None None (Some recording) (initial []))
     = Some (Inr \<lparr>success = True, data = JObj [(''status'', JStr ''completed'')]\<rparr>)
   \<and> final calls (rebuildVectorStoreWithProgress sample_parse (streaming chunks_cut) []
         None None (Some recording) (initial []))
     = Some [ev_processing]
   \<and> event_of sample_parse (take 3 (line_of text_failed)) = None
   \<and> event_of sample_parse (drop 3 (line_of text_failed)) = None"
proof -
  let ?resp = "\<lparr>status_code = 200, statusText = ''OK'', body = Some (reader_of chunks_cut)\<rparr>"
  have n1: "streaming chunks_cut (stream_request [] None None) = Inr ?resp"
    by (simp add: streaming_def)
  have n2: "streaming chunks_cut_absent (stream_request [] None None)
            = Inr (?resp\<lparr>body := Some (reader_of chunks_cut_absent)\<rparr>)"
    by (simp add: streaming_def)
  have b: "body ?resp = Some (reader_of chunks_cut)" by simp
  have r1: "reader_of chunks_cut 0 = Value (join newline ([line_of text_processing, []] @ [cut_front]))"
    by (simp add: reader_of_def chunks_cut_def)
  have r2: "reader_of chunks_cut (Suc 0) = Value (join newline (cut_back # [[], []]))"
    by (simp add: reader_of_def chunks_cut_def)
  have r3: "reader_of chunks_cut_absent 0 = Value (join newline [line_of text_processing, []])"
    by (simp add: reader_of_def chunks_cut_absent_def)
  have r4: "reader_of chunks_cut_absent (Suc 0) = Value (join newline [[], []])"
    by (simp add: reader_of_def chunks_cut_absent_def)
  have r5: "\<forall>i. i \<noteq> 0 \<and> i \<noteq> Suc 0 \<longrightarrow> reader_of chunks_cut_absent i = reader_of chunks_cut i"
    by (auto simp: reader_of_def chunks_cut_def chunks_cut_absent_def)
  have e1: "event_of sample_parse cut_front = None" by code_simp
  have e2: "event_of sample_parse cut_back = None" by code_simp
  have nl: "\<forall>l\<in>set ([line_of text_processing, []] @ cut_front # cut_back # [[], []]). newline \<notin> set l"
    by code_simp
  have m: "startsWith (line_of text_failed) ''data: '' \<and> (0::nat) < 3 \<and> (3::nat) < 6" by code_simp
  note T = C10_split_line[where net = "streaming chunks_cut" and net' = "streaming chunks_cut_absent"
      and baseURL = "[]" and token = None and fs = None and parse = sample_parse
      and onProgress = "Some recording" and w = "initial []" and line = "line_of text_failed" and k = 3,
      OF n1 b n2 r1 r2 r3 r4 r5 e1 e2 nl]
  have c: "cut_front @ cut_back = line_of text_failed"
    by (simp add: cut_front_def cut_back_def)
  have v: "returned (rebuildVectorStoreWithProgress sample_parse (streaming chunks_cut) []
         None None (Some recording) (initial []))
     = Some (Inr \<lparr>success = True, data = JObj [(''status'', JStr ''completed'')]\<rparr>)"
    by code_simp
  have f: "final calls (rebuildVectorStoreWithProgress sample_parse (streaming chunks_cut) []
         None None (Some recording) (initial []))
     = Some [ev_processing]"
    by code_simp
  from T[THEN conjunct1] T[THEN conjunct2, THEN mp, OF m] c sample_events(3) v f
  show ?thesis by simp
qed

end
